theory Spec2Isabelle
  imports Complex_Main "HOL-Library.AList"
begin

section \<open>Result cache (\<open>SearchCache\<close>)\<close>

text \<open>
  The class keeps a JavaScript \<open>Map\<close> from keys to entries and a JavaScript \<open>Set\<close> of
  keys. Both iterate in insertion order, so the map is an association list with distinct
  keys (\<open>Map.set\<close> on a present key overwrites in place, on a new key appends:
  \<^const>\<open>AList.update\<close>; \<open>Map.delete\<close> is \<^const>\<open>AList.delete\<close>) and the set is a
  list without duplicates. \<open>Date.now()\<close> is an argument \<open>now\<close>, in milliseconds.
  \<open>generateKey\<close> hashes \<open>JSON.stringify({query, focusMode, options})\<close> with SHA-256 from
  the \<open>crypto\<close> library; the digest function is the parameter \<open>gk\<close>. A digest is a
  string of 64 hexadecimal characters, so a key is never a falsy value.
\<close>

record 'v CacheEntry =
  data :: 'v
  timestamp :: int
  expiresAt :: int
  hits :: nat

record CacheConfig =
  maxSize :: int
  defaultTTL :: int
  maxMemoryUsage :: int

record ('k, 'v) SearchCache =
  cache :: "('k \<times> 'v CacheEntry) list"
  accessOrder :: "'k list"
  config :: CacheConfig

definition Set_add :: "'k \<Rightarrow> 'k list \<Rightarrow> 'k list" where
  "Set_add k ks = (if k \<in> set ks then ks else ks @ [k])"

definition Set_delete :: "'k \<Rightarrow> 'k list \<Rightarrow> 'k list" where
  "Set_delete k ks = removeAll k ks"

definition isExpired :: "int \<Rightarrow> 'v CacheEntry \<Rightarrow> bool" where
  "isExpired now entry = (now > expiresAt entry)"

text \<open>\<open>evictLRU\<close>: the first key of the access order, when there is one, leaves both
  structures.\<close>

definition evictLRU :: "('k, 'v) SearchCache \<Rightarrow> ('k, 'v) SearchCache" where
  "evictLRU c =
     (case accessOrder c of
        [] \<Rightarrow> c
      | oldestKey # _ \<Rightarrow>
          c\<lparr>cache := AList.delete oldestKey (cache c),
            accessOrder := Set_delete oldestKey (accessOrder c)\<rparr>)"

definition updateAccessOrder :: "'k \<Rightarrow> ('k, 'v) SearchCache \<Rightarrow> ('k, 'v) SearchCache" where
  "updateAccessOrder key c = c\<lparr>accessOrder := Set_add key (Set_delete key (accessOrder c))\<rparr>"

text \<open>The loop \<open>while (this.cache.size >= this.config.maxSize) this.evictLRU()\<close> of
  \<open>set\<close>. A run that never leaves the loop is the value \<open>None\<close>.\<close>

partial_function (option) evictWhileFull :: "('k, 'v) SearchCache \<Rightarrow> ('k, 'v) SearchCache option"
  where
  "evictWhileFull c =
     (if int (length (cache c)) \<ge> maxSize (config c) then evictWhileFull (evictLRU c)
      else Some c)"

declare evictWhileFull.simps [code]

text \<open>\<open>set(query, focusMode, data, options, ttl)\<close>; an omitted \<open>ttl\<close> is \<open>None\<close> and
  stands for \<open>config.defaultTTL\<close>.\<close>

definition SearchCache_set ::
  "(string \<Rightarrow> string \<Rightarrow> 'o \<Rightarrow> 'k) \<Rightarrow> int \<Rightarrow> ('k, 'v) SearchCache \<Rightarrow>
     string \<Rightarrow> string \<Rightarrow> 'v \<Rightarrow> 'o \<Rightarrow> int option \<Rightarrow> ('k, 'v) SearchCache option" where
  "SearchCache_set gk now c query focusMode d options ttl_arg =
     (let ttl = (case ttl_arg of None \<Rightarrow> defaultTTL (config c) | Some t \<Rightarrow> t);
          key = gk query focusMode options;
          c1 = (if key \<in> fst ` set (cache c)
                then c\<lparr>accessOrder := Set_delete key (accessOrder c)\<rparr> else c)
      in case evictWhileFull c1 of
           None \<Rightarrow> None
         | Some c2 \<Rightarrow>
             (let entry = \<lparr>data = d, timestamp = now, expiresAt = now + ttl, hits = 0\<rparr>
              in Some (updateAccessOrder key (c2\<lparr>cache := AList.update key entry (cache c2)\<rparr>))))"

text \<open>\<open>get\<close> returns the pair of its result (\<open>None\<close> for \<open>null\<close>) and the cache it leaves.\<close>

definition SearchCache_get ::
  "(string \<Rightarrow> string \<Rightarrow> 'o \<Rightarrow> 'k) \<Rightarrow> int \<Rightarrow> ('k, 'v) SearchCache \<Rightarrow>
     string \<Rightarrow> string \<Rightarrow> 'o \<Rightarrow> 'v option \<times> ('k, 'v) SearchCache" where
  "SearchCache_get gk now c query focusMode options =
     (let key = gk query focusMode options
      in case map_of (cache c) key of
           None \<Rightarrow> (None, c)
         | Some entry \<Rightarrow>
             if isExpired now entry
             then (None, c\<lparr>cache := AList.delete key (cache c),
                           accessOrder := Set_delete key (accessOrder c)\<rparr>)
             else (Some (data entry),
                   updateAccessOrder key
                     (c\<lparr>cache := AList.update key (entry\<lparr>hits := hits entry + 1\<rparr>) (cache c)\<rparr>)))"

definition SearchCache_has ::
  "(string \<Rightarrow> string \<Rightarrow> 'o \<Rightarrow> 'k) \<Rightarrow> int \<Rightarrow> ('k, 'v) SearchCache \<Rightarrow>
     string \<Rightarrow> string \<Rightarrow> 'o \<Rightarrow> bool \<times> ('k, 'v) SearchCache" where
  "SearchCache_has gk now c query focusMode options =
     (let key = gk query focusMode options
      in case map_of (cache c) key of
           None \<Rightarrow> (False, c)
         | Some entry \<Rightarrow>
             if isExpired now entry
             then (False, c\<lparr>cache := AList.delete key (cache c),
                            accessOrder := Set_delete key (accessOrder c)\<rparr>)
             else (True, c))"

text \<open>The class invariant: the access order lists exactly the keys of the map, each once.\<close>

definition cache_inv :: "('k, 'v) SearchCache \<Rightarrow> bool" where
  "cache_inv c \<longleftrightarrow>
     distinct (map fst (cache c)) \<and> distinct (accessOrder c) \<and>
     set (accessOrder c) = fst ` set (cache c)"

section \<open>Copilot search agent: the answer cache around the pipeline\<close>

text \<open>
  \<open>searchAndAnswer\<close> first reads the result cache under
  \<open>(message, 'copilot', {optimizationMode})\<close>. A truthy cached result (a non-empty
  string) is emitted as one \<open>response\<close> event followed by \<open>end\<close>, and the chain is
  never built; otherwise the chain is built and streamed into \<open>handleStream\<close>. What
  the emitter sends is a list of \<open>emitted\<close> values; the chain itself (language model,
  search provider, embeddings) is an external collaborator, so the start of the chain is
  the value \<open>ChainStarted\<close> and the events it streams are an argument of
  \<open>handleStream\<close>, together with whether the stream ended or threw.
\<close>

datatype OptimizationMode = speed | balanced | quality

datatype emitted = EmitData string string | EmitEnd | EmitError

datatype answer_start = FromCache "emitted list" | ChainStarted

record StreamEvent =
  event :: string
  name :: string
  chunk :: string

datatype stream_end = Finished | Thrown

definition searchAndAnswer ::
  "(string \<Rightarrow> string \<Rightarrow> OptimizationMode \<Rightarrow> 'k) \<Rightarrow> int \<Rightarrow> ('k, string) SearchCache \<Rightarrow>
     string \<Rightarrow> OptimizationMode \<Rightarrow> answer_start \<times> ('k, string) SearchCache" where
  "searchAndAnswer gk now c message optimizationMode =
     (case SearchCache_get gk now c message ''copilot'' optimizationMode of
        (Some cachedResult, c') \<Rightarrow>
          if cachedResult \<noteq> []
          then (FromCache [EmitData ''response'' cachedResult, EmitEnd], c')
          else (ChainStarted, c')
      | (None, c') \<Rightarrow> (ChainStarted, c'))"

text \<open>The body of the \<open>for await\<close> loop of \<open>handleStream\<close>: the response so far and
  what has been emitted.\<close>

fun consume :: "StreamEvent list \<Rightarrow> string \<Rightarrow> emitted list \<Rightarrow> string \<times> emitted list" where
  "consume [] fullResponse out = (fullResponse, out)"
| "consume (e # es) fullResponse out =
     (if event e = ''on_llm_stream'' \<and> name e = ''CopilotResponseGenerator''
      then consume es (fullResponse @ chunk e) (out @ [EmitData ''response'' (chunk e)])
      else if event e = ''on_llm_start'' \<and> name e = ''CopilotSourceRetriever''
      then consume es fullResponse
             (out @ [EmitData ''thinking''
                ''Generating multiple search queries for comprehensive research...''])
      else if event e = ''on_chain_start'' \<and> name e = ''CopilotSourceRetriever''
      then consume es fullResponse (out @ [EmitData ''status'' ''Searching multiple sources...''])
      else consume es fullResponse out)"

text \<open>\<open>handleStream\<close>: \<open>None\<close> when the call to \<open>set\<close> never returns.\<close>

definition handleStream ::
  "(string \<Rightarrow> string \<Rightarrow> OptimizationMode \<Rightarrow> 'k) \<Rightarrow> int \<Rightarrow> ('k, string) SearchCache \<Rightarrow>
     StreamEvent list \<times> stream_end \<Rightarrow> string \<Rightarrow> OptimizationMode \<Rightarrow>
     (emitted list \<times> ('k, string) SearchCache) option" where
  "handleStream gk now c stream query optimizationMode =
     (case consume (fst stream) [] [] of
        (fullResponse, out) \<Rightarrow>
          (case snd stream of
             Thrown \<Rightarrow> Some (out @ [EmitError], c)
           | Finished \<Rightarrow>
               if fullResponse \<noteq> []
               then (case SearchCache_set gk now c query ''copilot'' fullResponse
                            optimizationMode None of
                       None \<Rightarrow> None
                     | Some c' \<Rightarrow> Some (out @ [EmitEnd], c'))
               else Some (out @ [EmitEnd], c)))"

text \<open>
  The stream that \<open>handleStream\<close> is given is the one \<open>streamEvents\<close> of the LangChain
  library (an external collaborator) reports for the chain that \<open>createCopilotChain\<close>
  builds. Every runnable reports its events under its own run name. The run name
  \<open>CopilotResponseGenerator\<close> is given, by \<open>withConfig\<close>, to the whole sequence, and a
  sequence reports \<open>on_chain_start\<close>, one \<open>on_chain_stream\<close> for every chunk of its
  output, and \<open>on_chain_end\<close>; the run name \<open>CopilotSourceRetriever\<close> is given to the
  retrieval step, which reports \<open>on_chain_start\<close> and \<open>on_chain_end\<close>. The language
  model reports \<open>on_llm_start\<close>, one \<open>on_llm_stream\<close> for every chunk, and
  \<open>on_llm_end\<close>, under its own name \<open>llmName\<close> (such as \<open>ChatOpenAI\<close>); the prompt
  and the output parser report under theirs.
\<close>

definition stream_event :: "string \<Rightarrow> string \<Rightarrow> string \<Rightarrow> StreamEvent" where
  "stream_event kind run_name c = \<lparr>event = kind, name = run_name, chunk = c\<rparr>"

definition copilotChainEvents :: "string \<Rightarrow> string list \<Rightarrow> StreamEvent list" where
  "copilotChainEvents llmName chunks =
     [stream_event ''on_chain_start'' ''CopilotResponseGenerator'' [],
      stream_event ''on_chain_start'' ''RunnableMap'' [],
      stream_event ''on_chain_start'' ''CopilotSourceRetriever'' [],
      stream_event ''on_chain_end'' ''CopilotSourceRetriever'' [],
      stream_event ''on_chain_end'' ''RunnableMap'' [],
      stream_event ''on_prompt_start'' ''ChatPromptTemplate'' [],
      stream_event ''on_prompt_end'' ''ChatPromptTemplate'' [],
      stream_event ''on_llm_start'' llmName []]
     @ concat (map (\<lambda>c. [stream_event ''on_llm_stream'' llmName c,
                          stream_event ''on_parser_stream'' ''StrOutputParser'' c,
                          stream_event ''on_chain_stream'' ''CopilotResponseGenerator'' c])
                 chunks)
     @ [stream_event ''on_llm_end'' llmName [],
        stream_event ''on_parser_end'' ''StrOutputParser'' [],
        stream_event ''on_chain_end'' ''CopilotResponseGenerator'' []]"

section \<open>Copilot search agent: query generation\<close>

text \<open>
  \<open>generateMultipleQueries\<close> awaits the text of the language model (an external
  collaborator; the text is the argument \<open>response\<close>) and parses it. The regular
  expression \<open>/<queries>([\s\S]*?)<\/queries>/\<close> matches from the first
  \<open><queries>\<close> to the first \<open></queries>\<close> after it, and its group is the text
  between the two. Strings are byte strings here, so \<open>trim\<close> strips the ASCII white
  space and line terminators of JavaScript's \<open>String.prototype.trim\<close>.
\<close>

definition maxQueries_of :: "OptimizationMode \<Rightarrow> nat" where
  "maxQueries_of optimizationMode =
     (if optimizationMode = speed then 2 else if optimizationMode = balanced then 3 else 4)"

fun split_at_first :: "string \<Rightarrow> string \<Rightarrow> (string \<times> string) option" where
  "split_at_first pat [] = (if pat = [] then Some ([], []) else None)"
| "split_at_first pat (c # cs) =
     (if take (length pat) (c # cs) = pat then Some ([], drop (length pat) (c # cs))
      else map_option (\<lambda>(before, after). (c # before, after)) (split_at_first pat cs))"

definition queriesMatch :: "string \<Rightarrow> string option" where
  "queriesMatch response =
     (case split_at_first ''<queries>'' response of
        None \<Rightarrow> None
      | Some (_, rest) \<Rightarrow>
          (case split_at_first ''</queries>'' rest of
             None \<Rightarrow> None
           | Some (inner, _) \<Rightarrow> Some inner))"

definition isWhiteSpace :: "char \<Rightarrow> bool" where
  "isWhiteSpace c \<longleftrightarrow> c \<in> set [CHR '' '', CHR 0x09, CHR 0x0A, CHR 0x0B, CHR 0x0C, CHR 0x0D]"

definition trim :: "string \<Rightarrow> string" where
  "trim s = rev (dropWhile isWhiteSpace (rev (dropWhile isWhiteSpace s)))"

text \<open>\<open>s.split('\n')\<close>: the empty string splits into one empty piece.\<close>

fun split_lines :: "string \<Rightarrow> string list" where
  "split_lines [] = [[]]"
| "split_lines (c # cs) =
     (if c = CHR 0x0A then [] # split_lines cs
      else (case split_lines cs of [] \<Rightarrow> [[c]] | l # ls \<Rightarrow> (c # l) # ls))"

definition generateMultipleQueries :: "string \<Rightarrow> string \<Rightarrow> nat \<Rightarrow> string list" where
  "generateMultipleQueries query response maxQueries =
     (case queriesMatch response of
        Some inner \<Rightarrow>
          take maxQueries (filter (\<lambda>q. length q > 0) (map trim (split_lines (trim inner))))
      | None \<Rightarrow> [query])"

section \<open>Copilot search agent: reranking\<close>

text \<open>
  The embedding model and \<open>computeSimilarity\<close> are collaborators outside the repository:
  \<open>embedDocuments\<close> and \<open>embedQuery\<close> are functions that may fail (\<open>None\<close>, for a
  rejected or timed-out call), \<open>computeSimilarity\<close> is a function into the reals. An
  array read out of range is \<open>undefined\<close>, here \<open>None\<close>, so the result is a list of
  optional documents.
\<close>

record Document =
  pageContent :: string
  title :: string
  url :: string

record SimilarityItem =
  index :: nat
  similarity :: real
  doc :: "Document option"

fun findIndex :: "('a \<Rightarrow> bool) \<Rightarrow> 'a list \<Rightarrow> int" where
  "findIndex p [] = - 1"
| "findIndex p (x # xs) =
     (if p x then 0 else (let i = findIndex p xs in if i < 0 then - 1 else i + 1))"

definition uniqueDocs :: "Document list \<Rightarrow> Document list" where
  "uniqueDocs docs =
     map snd (filter (\<lambda>(i, d). int i = findIndex (\<lambda>d'. url d' = url d) docs)
                (enumerate 0 docs))"

definition at_index :: "'a list \<Rightarrow> nat \<Rightarrow> 'a option" where
  "at_index xs i = (if i < length xs then Some (xs ! i) else None)"

definition similarities ::
  "('e \<Rightarrow> 'e \<Rightarrow> real) \<Rightarrow> Document list \<Rightarrow> 'e list \<Rightarrow> 'e \<Rightarrow> SimilarityItem list" where
  "similarities computeSimilarity uniq docEmbeddings queryEmbedding =
     map (\<lambda>(i, embedding).
            \<lparr>index = i, similarity = computeSimilarity queryEmbedding embedding,
             doc = at_index uniq i\<rparr>)
       (enumerate 0 docEmbeddings)"

text \<open>\<open>filter\<close>, \<open>sort\<close> (stable, by descending similarity) and \<open>slice(0, 15)\<close>.\<close>

definition rankedItems :: "real \<Rightarrow> SimilarityItem list \<Rightarrow> SimilarityItem list" where
  "rankedItems rerankThreshold items =
     take 15 (sort_key (\<lambda>item. - similarity item)
                (filter (\<lambda>item. similarity item > rerankThreshold) items))"

definition rerankAndDeduplicate ::
  "(string list \<Rightarrow> 'e list option) \<Rightarrow> (string \<Rightarrow> 'e option) \<Rightarrow> ('e \<Rightarrow> 'e \<Rightarrow> real) \<Rightarrow> real \<Rightarrow>
     Document list \<Rightarrow> string \<Rightarrow> Document option list" where
  "rerankAndDeduplicate embedDocuments embedQuery computeSimilarity rerankThreshold docs query =
     (if docs = [] then []
      else
        (let uniq = uniqueDocs docs
         in case (embedDocuments (map pageContent uniq), embedQuery query) of
              (Some docEmbeddings, Some queryEmbedding) \<Rightarrow>
                map doc (rankedItems rerankThreshold
                           (similarities computeSimilarity uniq docEmbeddings queryEmbedding))
            | _ \<Rightarrow> map Some (take 15 uniq)))"

text \<open>Deduplication by URL said directly: going through the list, a document is kept
  when its URL has not been seen before.\<close>

fun firstPerUrl :: "string set \<Rightarrow> Document list \<Rightarrow> Document list" where
  "firstPerUrl seen [] = []"
| "firstPerUrl seen (d # ds) =
     (if url d \<in> seen then firstPerUrl seen ds else d # firstPerUrl (insert (url d) seen) ds)"

section \<open>Adaptive timeout controller (\<open>SmartTimeout\<close>)\<close>

text \<open>
  Durations are differences of \<open>Date.now()\<close>, whole milliseconds, and the configured
  bounds are whole milliseconds too; the average and the buffer are computed in the
  reals, exactly. \<open>metrics\<close> is the map from a request type to its history, oldest record
  first.
\<close>

record TimeoutConfig =
  baseTimeout :: int
  maxTimeout :: int
  minTimeout :: int
  adaptiveEnabled :: bool
  historySize :: int

record RequestMetrics =
  duration :: int
  recordedAt :: int
  success :: bool
  requestType :: string

text \<open>\<open>xs.slice(start)\<close>: a negative start counts from the end, and \<open>-0\<close> is \<open>0\<close>.\<close>

definition slice_from :: "int \<Rightarrow> 'a list \<Rightarrow> 'a list" where
  "slice_from start xs =
     (if start < 0 then drop (nat (int (length xs) + start)) xs else drop (nat start) xs)"

definition recentSuccessful :: "TimeoutConfig \<Rightarrow> RequestMetrics list \<Rightarrow> RequestMetrics list" where
  "recentSuccessful cfg history =
     slice_from (- min 20 (historySize cfg)) (filter success history)"

definition calculateAdaptiveTimeout ::
  "TimeoutConfig \<Rightarrow> (string \<rightharpoonup> RequestMetrics list) \<Rightarrow> string \<Rightarrow> int" where
  "calculateAdaptiveTimeout cfg metrics rt =
     (let history = (case metrics rt of None \<Rightarrow> [] | Some h \<Rightarrow> h)
      in if length history = 0 then baseTimeout cfg
         else
           (case map duration (recentSuccessful cfg history) of
              [] \<Rightarrow> baseTimeout cfg
            | d # ds \<Rightarrow>
                (let durations = d # ds;
                     averageDuration = real_of_int (sum_list durations) / real (length durations);
                     maxDuration = fold max ds d;
                     sorted_durations = sort durations;
                     p95Index = \<lceil>real (length durations) * 0.95\<rceil> - 1;
                     p95Duration =
                       (case at_index sorted_durations (nat p95Index) of
                          None \<Rightarrow> maxDuration
                        | Some v \<Rightarrow> if v \<noteq> 0 then v else maxDuration);
                     buffer = max (averageDuration * 0.5) 2000;
                     adaptiveTimeout = \<lceil>real_of_int p95Duration + buffer\<rceil>
                 in min (maxTimeout cfg) (max (minTimeout cfg) adaptiveTimeout))))"

text \<open>The statistics as the specification names them: the nearest-rank 95th percentile
  and the arithmetic mean of a list of durations.\<close>

definition percentile95 :: "int list \<Rightarrow> int" where
  "percentile95 ds = sort ds ! (nat \<lceil>0.95 * real (length ds)\<rceil> - 1)"

definition average :: "int list \<Rightarrow> real" where
  "average ds = real_of_int (sum_list ds) / real (length ds)"

section \<open>Request deduplicator (\<open>RequestDeduplicator\<close>)\<close>

text \<open>
  JavaScript runs one callback at a time, so the state of the deduplicator changes only
  in steps: the synchronous part of a call of \<open>deduplicate\<close> (up to its \<open>await\<close>), the
  settling of an operation, upon which the \<open>finally\<close> block of the call that invoked it
  runs, a sweep of \<open>cleanup\<close>, and \<open>clear\<close>. A promise is known by a number, fresh for
  every invocation of a \<open>requestFn\<close>; what a caller observes is the outcome of the
  promise its call hands back. Three fields are added to the state to speak about
  executions: the log of invocations of \<open>requestFn\<close> (key and promise), the promises of
  the invocations that have not settled yet, and the next fresh number.
\<close>

record PendingRequest =
  promise :: nat
  pending_timestamp :: int
  requestCount :: nat

record DeduplicatorConfig =
  maxPendingTime :: int
  cleanupInterval :: int
  enabled :: bool

record DedupState =
  pendingRequests :: "(string \<times> PendingRequest) list"
  requestFnCalls :: "(string \<times> nat) list"
  unsettled :: "nat list"
  nextPromise :: nat

definition call_requestFn :: "string \<Rightarrow> DedupState \<Rightarrow> nat \<times> DedupState" where
  "call_requestFn key s =
     (nextPromise s,
      s\<lparr>requestFnCalls := requestFnCalls s @ [(key, nextPromise s)],
        unsettled := unsettled s @ [nextPromise s],
        nextPromise := Suc (nextPromise s)\<rparr>)"

text \<open>The tail of \<open>deduplicate\<close>: invoke \<open>requestFn\<close> and register the pending request.\<close>

definition register_request :: "int \<Rightarrow> string \<Rightarrow> DedupState \<Rightarrow> nat \<times> DedupState" where
  "register_request now key s =
     (case call_requestFn key s of
        (p, s1) \<Rightarrow>
          (p, s1\<lparr>pendingRequests :=
                   AList.update key \<lparr>promise = p, pending_timestamp = now, requestCount = 1\<rparr>
                     (pendingRequests s1)\<rparr>))"

definition deduplicate ::
  "DeduplicatorConfig \<Rightarrow> int \<Rightarrow> string \<Rightarrow> DedupState \<Rightarrow> nat \<times> DedupState" where
  "deduplicate cfg now key s =
     (if \<not> enabled cfg then call_requestFn key s
      else
        (case map_of (pendingRequests s) key of
           Some existing \<Rightarrow>
             if now - pending_timestamp existing < maxPendingTime cfg
             then (promise existing,
                   s\<lparr>pendingRequests :=
                       AList.update key (existing\<lparr>requestCount := requestCount existing + 1\<rparr>)
                         (pendingRequests s)\<rparr>)
             else register_request now key
                    (s\<lparr>pendingRequests := AList.delete key (pendingRequests s)\<rparr>)
         | None \<Rightarrow> register_request now key s))"

text \<open>The \<open>finally\<close> block of a call that registered \<open>key\<close>:
  \<open>this.pendingRequests.delete(key)\<close>, whatever entry the key holds by then.\<close>

definition deduplicate_finally :: "string \<Rightarrow> DedupState \<Rightarrow> DedupState" where
  "deduplicate_finally key s = s\<lparr>pendingRequests := AList.delete key (pendingRequests s)\<rparr>"

text \<open>The operation with promise \<open>p\<close> settles (resolves or rejects). With the
  deduplicator enabled, the call that invoked it is suspended at \<open>await promise\<close> and
  now runs its \<open>finally\<close> block, for the key it was called with; a disabled deduplicator
  hands the promise of \<open>requestFn\<close> back directly and has no such block.\<close>

definition operation_settles :: "DeduplicatorConfig \<Rightarrow> nat \<Rightarrow> DedupState \<Rightarrow> DedupState" where
  "operation_settles cfg p s =
     (if p \<in> set (unsettled s)
      then (case find (\<lambda>(key, q). q = p) (requestFnCalls s) of
              Some (key, q) \<Rightarrow>
                if enabled cfg
                then deduplicate_finally key (s\<lparr>unsettled := removeAll p (unsettled s)\<rparr>)
                else s\<lparr>unsettled := removeAll p (unsettled s)\<rparr>
            | None \<Rightarrow> s\<lparr>unsettled := removeAll p (unsettled s)\<rparr>)
      else s)"

definition dedup_cleanup :: "DeduplicatorConfig \<Rightarrow> int \<Rightarrow> DedupState \<Rightarrow> DedupState" where
  "dedup_cleanup cfg now s =
     s\<lparr>pendingRequests :=
         filter (\<lambda>(key, pending). \<not> now - pending_timestamp pending > maxPendingTime cfg)
           (pendingRequests s)\<rparr>"

definition dedup_clear :: "DedupState \<Rightarrow> DedupState" where
  "dedup_clear s = s\<lparr>pendingRequests := []\<rparr>"

datatype dedup_event =
  Call int string | Settles nat | Cleanup int | Clear

fun dedup_step :: "DeduplicatorConfig \<Rightarrow> dedup_event \<Rightarrow> DedupState \<Rightarrow> DedupState" where
  "dedup_step cfg (Call now key) s = snd (deduplicate cfg now key s)"
| "dedup_step cfg (Settles p) s = operation_settles cfg p s"
| "dedup_step cfg (Cleanup now) s = dedup_cleanup cfg now s"
| "dedup_step cfg Clear s = dedup_clear s"

fun dedup_run :: "DeduplicatorConfig \<Rightarrow> DedupState \<Rightarrow> dedup_event list \<Rightarrow> DedupState" where
  "dedup_run cfg s [] = s"
| "dedup_run cfg s (ev # evs) = dedup_run cfg (dedup_step cfg ev s) evs"

definition dedup_init :: DedupState where
  "dedup_init = \<lparr>pendingRequests = [], requestFnCalls = [], unsettled = [], nextPromise = 0\<rparr>"

text \<open>Calls of \<open>deduplicate\<close> for one key at the given times, one after the other with
  nothing in between; the promises handed back, in order, and the state left.\<close>

fun deduplicate_calls ::
  "DeduplicatorConfig \<Rightarrow> string \<Rightarrow> int list \<Rightarrow> DedupState \<Rightarrow> nat list \<times> DedupState" where
  "deduplicate_calls cfg key [] s = ([], s)"
| "deduplicate_calls cfg key (now # later) s =
     (case deduplicate cfg now key s of
        (p, s1) \<Rightarrow>
          (case deduplicate_calls cfg key later s1 of (ps, s2) \<Rightarrow> (p # ps, s2)))"

text \<open>What holds of every state the deduplicator reaches.\<close>

definition dedup_inv :: "DeduplicatorConfig \<Rightarrow> DedupState \<Rightarrow> bool" where
  "dedup_inv cfg s \<longleftrightarrow>
     (enabled cfg \<or> pendingRequests s = []) \<and>
     distinct (map snd (requestFnCalls s)) \<and>
     list_all (\<lambda>(key, p). p < nextPromise s) (requestFnCalls s) \<and>
     list_all (\<lambda>(key, pending). (key, promise pending) \<in> set (requestFnCalls s))
       (pendingRequests s)"

section \<open>Task executor (\<open>ParallelProcessor\<close>)\<close>

text \<open>
  As for the deduplicator, the state changes in steps. \<open>executeTask\<close> runs
  synchronously up to its \<open>await\<close>: it looks the id up in \<open>activeJobs\<close> and, when the id
  is not there, calls \<open>runTaskWithRetry\<close>, whose first attempt invokes the task function
  at once (through \<open>runTaskWithTimeout\<close>), and stores the promise under the id. A call
  of \<open>runTaskWithRetry\<close> is a job, known by the number of its promise. An attempt races
  the invocation of the task function against a timer; \<open>Promise.race\<close> cancels
  neither, so after the timer has won, the invocation goes on running. A failed attempt
  that is not the last is followed by a delay and a further attempt, which invokes the
  task function again. When the job has settled, the \<open>finally\<close> block of the call of
  \<open>executeTask\<close> that started it runs. The task function is an opaque asynchronous
  operation: the state records, besides the fields of the class, the jobs (\<open>jobs\<close>), the
  ids whose task function has been invoked, in order (\<open>taskFnCalls\<close>), and the
  invocations, by job and attempt, that have not settled yet (\<open>inFlight\<close>). The fields
  \<open>queue\<close> and \<open>running\<close> of the class are never written, but for \<open>clear\<close>.
\<close>

record ParallelTask =
  task_id :: string
  priority :: "int option"
  timeout :: "int option"

record ProcessorConfig =
  maxConcurrency :: int
  defaultTimeout :: int
  retryAttempts :: int
  retryDelay :: int

text \<open>A job is racing (an attempt is under way), delaying (between two attempts),
  settling (its promise has resolved or rejected and the \<open>finally\<close> block is due) or
  done.\<close>

datatype job_phase = Racing | Delaying | Settling | Done

record Job =
  job_task :: string
  attempt :: nat
  phase :: job_phase

record ProcessorState =
  activeJobs :: "(string \<times> nat) list"
  queue :: "ParallelTask list"
  running :: nat
  jobs :: "(nat \<times> Job) list"
  taskFnCalls :: "string list"
  inFlight :: "(nat \<times> nat) list"
  nextJob :: nat

text \<open>\<open>runTaskWithTimeout\<close>, synchronous part: \<open>task.task()\<close> is invoked.\<close>

definition runTaskWithTimeout_start :: "nat \<Rightarrow> nat \<Rightarrow> string \<Rightarrow> ProcessorState \<Rightarrow> ProcessorState" where
  "runTaskWithTimeout_start j a tid s =
     s\<lparr>taskFnCalls := taskFnCalls s @ [tid], inFlight := inFlight s @ [(j, a)]\<rparr>"

text \<open>\<open>runTaskWithRetry\<close>, synchronous part: the loop is entered when \<open>retryAttempts\<close>
  is at least 1, and its first attempt starts; otherwise \<open>throw lastError\<close> rejects the
  promise at once.\<close>

definition runTaskWithRetry_start ::
  "ProcessorConfig \<Rightarrow> ParallelTask \<Rightarrow> ProcessorState \<Rightarrow> nat \<times> ProcessorState" where
  "runTaskWithRetry_start cfg task s =
     (let j = nextJob s; s1 = s\<lparr>nextJob := Suc j\<rparr>
      in if 1 \<le> retryAttempts cfg
         then (j, runTaskWithTimeout_start j 1 (task_id task)
                    (s1\<lparr>jobs := AList.update j
                           \<lparr>job_task = task_id task, attempt = 1, phase = Racing\<rparr> (jobs s1)\<rparr>))
         else (j, s1\<lparr>jobs := AList.update j
                           \<lparr>job_task = task_id task, attempt = 0, phase = Settling\<rparr> (jobs s1)\<rparr>))"

definition executeTask ::
  "ProcessorConfig \<Rightarrow> ParallelTask \<Rightarrow> ProcessorState \<Rightarrow> nat \<times> ProcessorState" where
  "executeTask cfg task s =
     (case map_of (activeJobs s) (task_id task) of
        Some p \<Rightarrow> (p, s)
      | None \<Rightarrow>
          (case runTaskWithRetry_start cfg task s of
             (p, s1) \<Rightarrow> (p, s1\<lparr>activeJobs := AList.update (task_id task) p (activeJobs s1)\<rparr>)))"

text \<open>The \<open>catch\<close> block of the loop of \<open>runTaskWithRetry\<close>: an attempt below
  \<open>retryAttempts\<close> is followed by a delay, the last one by \<open>throw lastError\<close>.\<close>

definition attempt_failed :: "ProcessorConfig \<Rightarrow> nat \<Rightarrow> Job \<Rightarrow> ProcessorState \<Rightarrow> ProcessorState" where
  "attempt_failed cfg j job s =
     s\<lparr>jobs := AList.update j
          (job\<lparr>phase := (if int (attempt job) < retryAttempts cfg then Delaying else Settling)\<rparr>)
          (jobs s)\<rparr>"

text \<open>The invocation of attempt \<open>a\<close> of job \<open>j\<close> resolves: when that attempt is still
  racing, the job resolves; an invocation the timer has beaten only stops running.\<close>

definition taskFn_resolves :: "nat \<Rightarrow> nat \<Rightarrow> ProcessorState \<Rightarrow> ProcessorState" where
  "taskFn_resolves j a s =
     (if (j, a) \<in> set (inFlight s)
      then (let s1 = s\<lparr>inFlight := remove1 (j, a) (inFlight s)\<rparr>
            in case map_of (jobs s) j of
                 Some job \<Rightarrow>
                   if attempt job = a \<and> phase job = Racing
                   then s1\<lparr>jobs := AList.update j (job\<lparr>phase := Settling\<rparr>) (jobs s1)\<rparr>
                   else s1
               | None \<Rightarrow> s1)
      else s)"

definition taskFn_rejects :: "ProcessorConfig \<Rightarrow> nat \<Rightarrow> nat \<Rightarrow> ProcessorState \<Rightarrow> ProcessorState" where
  "taskFn_rejects cfg j a s =
     (if (j, a) \<in> set (inFlight s)
      then (let s1 = s\<lparr>inFlight := remove1 (j, a) (inFlight s)\<rparr>
            in case map_of (jobs s) j of
                 Some job \<Rightarrow>
                   if attempt job = a \<and> phase job = Racing then attempt_failed cfg j job s1
                   else s1
               | None \<Rightarrow> s1)
      else s)"

text \<open>The timer of attempt \<open>a\<close> of job \<open>j\<close> fires: when that attempt is still racing, it
  fails, and its invocation of the task function stays in flight.\<close>

definition timer_fires :: "ProcessorConfig \<Rightarrow> nat \<Rightarrow> nat \<Rightarrow> ProcessorState \<Rightarrow> ProcessorState" where
  "timer_fires cfg j a s =
     (case map_of (jobs s) j of
        Some job \<Rightarrow>
          if attempt job = a \<and> phase job = Racing then attempt_failed cfg j job s else s
      | None \<Rightarrow> s)"

text \<open>The delay after a failed attempt has elapsed: the next attempt invokes the task
  function again.\<close>

definition delay_elapsed :: "nat \<Rightarrow> ProcessorState \<Rightarrow> ProcessorState" where
  "delay_elapsed j s =
     (case map_of (jobs s) j of
        Some job \<Rightarrow>
          if phase job = Delaying
          then runTaskWithTimeout_start j (Suc (attempt job)) (job_task job)
                 (s\<lparr>jobs := AList.update j
                        (job\<lparr>attempt := Suc (attempt job), phase := Racing\<rparr>) (jobs s)\<rparr>)
          else s
      | None \<Rightarrow> s)"

text \<open>The \<open>finally\<close> block of the call of \<open>executeTask\<close> that started job \<open>j\<close>, run
  once the job has settled: \<open>this.activeJobs.delete(task.id)\<close>.\<close>

definition executeTask_finally :: "nat \<Rightarrow> ProcessorState \<Rightarrow> ProcessorState" where
  "executeTask_finally j s =
     (case map_of (jobs s) j of
        Some job \<Rightarrow>
          if phase job = Settling
          then s\<lparr>activeJobs := AList.delete (job_task job) (activeJobs s),
                 jobs := AList.update j (job\<lparr>phase := Done\<rparr>) (jobs s)\<rparr>
          else s
      | None \<Rightarrow> s)"

definition processor_clear :: "ProcessorState \<Rightarrow> ProcessorState" where
  "processor_clear s = s\<lparr>activeJobs := [], queue := []\<rparr>"

text \<open>\<open>execute\<close>: \<open>tasks.map(task => this.executeTask(task))\<close> runs the synchronous part
  of every call in order, before anything can settle; the promises then go to
  \<open>Promise.all\<close>. \<open>executeWithResults\<close> starts its tasks in the same way.\<close>

fun execute ::
  "ProcessorConfig \<Rightarrow> ParallelTask list \<Rightarrow> ProcessorState \<Rightarrow> nat list \<times> ProcessorState" where
  "execute cfg [] s = ([], s)"
| "execute cfg (task # tasks) s =
     (case executeTask cfg task s of
        (p, s1) \<Rightarrow> (case execute cfg tasks s1 of (ps, s2) \<Rightarrow> (p # ps, s2)))"

datatype processor_event =
    Submit ParallelTask
  | FnResolves nat nat
  | FnRejects nat nat
  | TimerFires nat nat
  | DelayElapsed nat
  | Finally nat
  | ClearAll

fun processor_step :: "ProcessorConfig \<Rightarrow> processor_event \<Rightarrow> ProcessorState \<Rightarrow> ProcessorState" where
  "processor_step cfg (Submit task) s = snd (executeTask cfg task s)"
| "processor_step cfg (FnResolves j a) s = taskFn_resolves j a s"
| "processor_step cfg (FnRejects j a) s = taskFn_rejects cfg j a s"
| "processor_step cfg (TimerFires j a) s = timer_fires cfg j a s"
| "processor_step cfg (DelayElapsed j) s = delay_elapsed j s"
| "processor_step cfg (Finally j) s = executeTask_finally j s"
| "processor_step cfg ClearAll s = processor_clear s"

fun processor_run ::
  "ProcessorConfig \<Rightarrow> ProcessorState \<Rightarrow> processor_event list \<Rightarrow> ProcessorState" where
  "processor_run cfg s [] = s"
| "processor_run cfg s (ev # evs) = processor_run cfg (processor_step cfg ev s) evs"

definition processor_init :: ProcessorState where
  "processor_init =
     \<lparr>activeJobs = [], queue = [], running = 0, jobs = [], taskFnCalls = [], inFlight = [],
      nextJob = 0\<rparr>"

text \<open>The ids whose task function a run of \<open>execute\<close> invokes: going through the list,
  an id that is neither active nor met before.\<close>

fun started :: "string set \<Rightarrow> string list \<Rightarrow> string list" where
  "started active [] = []"
| "started active (i # is) =
     (if i \<in> active then started active is else i # started (insert i active) is)"


section \<open>Concrete configurations and inputs\<close>

text \<open>Key functions that keep their arguments readable, small caches, a stream, three
  documents, latency histories and a processor configuration, for the evaluations
  below.\<close>

definition gk0 :: "string \<Rightarrow> string \<Rightarrow> string \<Rightarrow> string" where
  "gk0 query focusMode options = query @ ''|'' @ focusMode @ ''|'' @ options"

definition gkm :: "string \<Rightarrow> string \<Rightarrow> OptimizationMode \<Rightarrow> string" where
  "gkm query focusMode m =
     query @ ''|'' @ focusMode @ ''|'' @
       (case m of speed \<Rightarrow> ''speed'' | balanced \<Rightarrow> ''balanced'' | quality \<Rightarrow> ''quality'')"

definition cfg0 :: CacheConfig where
  "cfg0 = \<lparr>maxSize = 2, defaultTTL = 1000, maxMemoryUsage = 104857600\<rparr>"

definition cfg1 :: CacheConfig where
  "cfg1 = \<lparr>maxSize = 1, defaultTTL = 1000, maxMemoryUsage = 104857600\<rparr>"

definition cache_empty :: "(string, string) SearchCache" where
  "cache_empty = \<lparr>cache = [], accessOrder = [], config = cfg0\<rparr>"

definition cache1 :: "(string, string) SearchCache" where
  "cache1 =
     \<lparr>cache = [(''q|m|o'', \<lparr>data = ''v'', timestamp = 0, expiresAt = 100, hits = 3\<rparr>)],
      accessOrder = [''q|m|o''], config = cfg0\<rparr>"

definition cache_one :: "(string, string) SearchCache" where
  "cache_one =
     \<lparr>cache = [(''q|m|o'', \<lparr>data = ''v'', timestamp = 0, expiresAt = 1000, hits = 0\<rparr>)],
      accessOrder = [''q|m|o''], config = cfg1\<rparr>"

definition events0 :: "StreamEvent list" where
  "events0 =
     [\<lparr>event = ''on_chain_start'', name = ''CopilotSourceRetriever'', chunk = []\<rparr>,
      \<lparr>event = ''on_llm_stream'', name = ''CopilotResponseGenerator'', chunk = ''Hi ''\<rparr>,
      \<lparr>event = ''on_llm_stream'', name = ''CopilotResponseGenerator'', chunk = ''there''\<rparr>]"

definition doc_a :: Document where
  "doc_a = \<lparr>pageContent = ''alpha'', title = ''A'', url = ''http://a''\<rparr>"

definition doc_b :: Document where
  "doc_b = \<lparr>pageContent = ''beta'', title = ''B'', url = ''http://b''\<rparr>"

definition doc_a2 :: Document where
  "doc_a2 = \<lparr>pageContent = ''alpha again'', title = ''A2'', url = ''http://a''\<rparr>"

text \<open>A toy embedding: a text is embedded as its length, the query as 1, and the
  similarity of two embeddings is their product divided by ten.\<close>

definition embedDocuments0 :: "string list \<Rightarrow> real list option" where
  "embedDocuments0 texts = Some (map (\<lambda>t. real (length t)) texts)"

definition embedQuery0 :: "string \<Rightarrow> real option" where
  "embedQuery0 q = Some 1"

definition computeSimilarity0 :: "real \<Rightarrow> real \<Rightarrow> real" where
  "computeSimilarity0 a b = a * b / 10"

definition timeout_cfg0 :: TimeoutConfig where
  "timeout_cfg0 =
     \<lparr>baseTimeout = 30000, maxTimeout = 120000, minTimeout = 5000, adaptiveEnabled = True,
      historySize = 100\<rparr>"

definition slow_metrics :: "string \<rightharpoonup> RequestMetrics list" where
  "slow_metrics =
     [''search-web'' \<mapsto>
        [\<lparr>duration = 200000, recordedAt = 0, success = True, requestType = ''search-web''\<rparr>]]"

definition usual_metrics :: "string \<rightharpoonup> RequestMetrics list" where
  "usual_metrics =
     [''search-web'' \<mapsto>
        [\<lparr>duration = 3001, recordedAt = 0, success = True, requestType = ''search-web''\<rparr>,
         \<lparr>duration = 9000, recordedAt = 1, success = False, requestType = ''search-web''\<rparr>,
         \<lparr>duration = 7000, recordedAt = 2, success = True, requestType = ''search-web''\<rparr>]]"

definition cached_metrics :: "string \<rightharpoonup> RequestMetrics list" where
  "cached_metrics =
     [''search-web'' \<mapsto>
        replicate 19 \<lparr>duration = 0, recordedAt = 0, success = True, requestType = ''search-web''\<rparr>
        @ [\<lparr>duration = 50000, recordedAt = 1, success = True, requestType = ''search-web''\<rparr>]]"

definition dedup_cfg0 :: DeduplicatorConfig where
  "dedup_cfg0 = \<lparr>maxPendingTime = 30000, cleanupInterval = 15000, enabled = True\<rparr>"

definition processor_cfg2 :: ProcessorConfig where
  "processor_cfg2 =
     \<lparr>maxConcurrency = 2, defaultTimeout = 30000, retryAttempts = 3, retryDelay = 1000\<rparr>"

definition task_named :: "string \<Rightarrow> ParallelTask" where
  "task_named n = \<lparr>task_id = n, priority = None, timeout = None\<rparr>"

section \<open>Theorems about the cache\<close>

subsection \<open>The map, the access order and the eviction loop\<close>

lemma keys_delete: "fst ` set (AList.delete k al) = fst ` set al - {k}"
proof -
  have "set (map fst (AList.delete k al)) = set (removeAll k (map fst al))"
    by (simp only: AList.delete_keys)
  then show ?thesis by simp
qed

lemma length_delete_present:
  assumes "distinct (map fst al)" and "k \<in> fst ` set al"
  shows "Suc (length (AList.delete k al)) = length al"
proof -
  have "length (AList.delete k al) = length (map fst (AList.delete k al))" by simp
  also have "\<dots> = length (removeAll k (map fst al))" by (simp only: AList.delete_keys)
  also have "\<dots> = length (remove1 k (map fst al))"
    using assms(1) by (simp add: distinct_remove1_removeAll)
  also have "\<dots> = length al - 1" using assms(2) by (simp add: length_remove1)
  finally show ?thesis using assms(2) by (cases al) auto
qed

lemma evictLRU_inv:
  assumes "cache_inv c"
  shows "cache_inv (evictLRU c)"
proof (cases "accessOrder c")
  case Nil
  with assms show ?thesis by (simp add: evictLRU_def)
next
  case (Cons k ks)
  have "set (removeAll k (accessOrder c)) = fst ` set (cache c) - {k}"
    using assms by (simp add: cache_inv_def)
  with assms Cons show ?thesis
    by (simp add: cache_inv_def evictLRU_def Set_delete_def AList.distinct_delete keys_delete
        distinct_removeAll del: set_removeAll)
qed

lemma evictLRU_config: "config (evictLRU c) = config c"
  by (simp add: evictLRU_def split: list.splits)

lemma evictLRU_length:
  assumes "cache_inv c" and "cache c \<noteq> []"
  shows "Suc (length (cache (evictLRU c))) = length (cache c)"
proof (cases "accessOrder c")
  case Nil
  with assms show ?thesis by (auto simp: cache_inv_def)
next
  case (Cons k ks)
  with assms have "k \<in> fst ` set (cache c)" by (auto simp: cache_inv_def)
  with assms Cons show ?thesis
    by (simp add: evictLRU_def cache_inv_def length_delete_present)
qed

lemma evictLRU_keys: "fst ` set (cache (evictLRU c)) \<subseteq> fst ` set (cache c)"
  by (auto simp: evictLRU_def keys_delete split: list.splits)

text \<open>On a cache that satisfies the invariant, with a capacity of at least one, the
  eviction loop ends, with fewer than \<open>maxSize\<close> entries left.\<close>

lemma evictWhileFull_terminates:
  assumes "cache_inv c" and "1 \<le> maxSize (config c)"
  shows "\<exists>c'. evictWhileFull c = Some c' \<and> cache_inv c' \<and> config c' = config c
            \<and> int (length (cache c')) < maxSize (config c)
            \<and> fst ` set (cache c') \<subseteq> fst ` set (cache c)"
  using assms
proof (induction "length (cache c)" arbitrary: c rule: less_induct)
  case less
  show ?case
  proof (cases "maxSize (config c) \<le> int (length (cache c))")
    case False
    with less.prems show ?thesis by (subst evictWhileFull.simps) auto
  next
    case True
    with less.prems have ne: "cache c \<noteq> []" by auto
    have len: "Suc (length (cache (evictLRU c))) = length (cache c)"
      using less.prems(1) ne by (rule evictLRU_length)
    have "\<exists>c'. evictWhileFull (evictLRU c) = Some c' \<and> cache_inv c'
              \<and> config c' = config (evictLRU c)
              \<and> int (length (cache c')) < maxSize (config (evictLRU c))
              \<and> fst ` set (cache c') \<subseteq> fst ` set (cache (evictLRU c))"
      using len less.prems by (intro less.hyps) (auto simp: evictLRU_inv evictLRU_config)
    then obtain c' where c': "evictWhileFull (evictLRU c) = Some c'" "cache_inv c'"
      "config c' = config c" "int (length (cache c')) < maxSize (config c)"
      "fst ` set (cache c') \<subseteq> fst ` set (cache (evictLRU c))"
      by (auto simp: evictLRU_config)
    have "evictWhileFull c = Some c'"
      using True c'(1) by (subst evictWhileFull.simps) simp
    with c' evictLRU_keys [of c] show ?thesis by blast
  qed
qed

lemma evictWhileFull_below:
  "int (length (cache c)) < maxSize (config c) \<Longrightarrow> evictWhileFull c = Some c"
  by (subst evictWhileFull.simps) simp

lemma evictWhileFull_at_capacity:
  assumes "cache_inv c" and "1 \<le> maxSize (config c)"
    and "int (length (cache c)) = maxSize (config c)"
  shows "evictWhileFull c = Some (evictLRU c)"
proof -
  from assms have "cache c \<noteq> []" by auto
  with assms(1) have "Suc (length (cache (evictLRU c))) = length (cache c)"
    by (rule evictLRU_length)
  with assms(3) have "int (length (cache (evictLRU c))) < maxSize (config (evictLRU c))"
    by (simp add: evictLRU_config)
  then have "evictWhileFull (evictLRU c) = Some (evictLRU c)" by (rule evictWhileFull_below)
  with assms(3) show ?thesis by (subst evictWhileFull.simps) simp
qed

text \<open>With an empty access order and a map that is still at capacity, \<open>evictLRU\<close>
  changes nothing and the loop never ends.\<close>

lemma evictWhileFull_stuck:
  assumes "accessOrder c = []" and "maxSize (config c) \<le> int (length (cache c))"
  shows "evictWhileFull c = None"
proof (cases "evictWhileFull c")
  case None
  then show ?thesis .
next
  case (Some r)
  have "c \<noteq> c"
  proof (rule evictWhileFull.raw_induct [where P = "\<lambda>x y. x \<noteq> c", OF _ Some])
    fix f x y
    assume IH: "\<And>x y. f x = Some y \<Longrightarrow> x \<noteq> c"
      and step: "(if maxSize (config x) \<le> int (length (cache x)) then f (evictLRU x)
                  else Some x) = Some y"
    show "x \<noteq> c"
    proof
      assume "x = c"
      with step assms have "f c = Some y" by (simp add: evictLRU_def)
      with IH show False by blast
    qed
  qed
  then show ?thesis by simp
qed

lemma updateAccessOrder_insert_inv:
  assumes "cache_inv c"
  shows "cache_inv (updateAccessOrder key (c\<lparr>cache := AList.update key e (cache c)\<rparr>))"
  using assms
  by (auto simp: cache_inv_def updateAccessOrder_def Set_add_def Set_delete_def
      AList.distinct_update AList.dom_update distinct_removeAll)

lemma SearchCache_get_miss:
  assumes "cache_inv c" and "SearchCache_get gk now c query focusMode options = (None, c0)"
  shows "cache_inv c0 \<and> gk query focusMode options \<notin> fst ` set (cache c0) \<and> config c0 = config c"
proof (cases "map_of (cache c) (gk query focusMode options)")
  case None
  with assms show ?thesis
    by (auto simp: SearchCache_get_def Let_def map_of_eq_None_iff)
next
  case (Some entry)
  with assms(2) have c0: "c0 = c\<lparr>cache := AList.delete (gk query focusMode options) (cache c),
      accessOrder := removeAll (gk query focusMode options) (accessOrder c)\<rparr>"
    by (auto simp: SearchCache_get_def Let_def Set_delete_def split: if_splits)
  have "set (removeAll (gk query focusMode options) (accessOrder c))
          = fst ` set (cache c) - {gk query focusMode options}"
    using assms(1) by (simp add: cache_inv_def)
  with assms(1) show ?thesis
    unfolding c0
    by (simp add: cache_inv_def AList.distinct_delete keys_delete distinct_removeAll
        del: set_removeAll)
qed

lemma SearchCache_set_new_key:
  assumes "cache_inv c" and "1 \<le> maxSize (config c)"
    and "gk query focusMode options \<notin> fst ` set (cache c)"
  shows "\<exists>c2. evictWhileFull c = Some c2 \<and> cache_inv c2
           \<and> int (length (cache c2)) < maxSize (config c)
           \<and> SearchCache_set gk now c query focusMode d options ttl =
               Some (updateAccessOrder (gk query focusMode options)
                 (c2\<lparr>cache := AList.update (gk query focusMode options)
                    \<lparr>data = d, timestamp = now,
                     expiresAt = now + (case ttl of None \<Rightarrow> defaultTTL (config c) | Some t \<Rightarrow> t),
                     hits = 0\<rparr> (cache c2)\<rparr>))"
proof -
  from evictWhileFull_terminates [OF assms(1,2)]
  obtain c2 where "evictWhileFull c = Some c2" "cache_inv c2"
    "int (length (cache c2)) < maxSize (config c)" by blast
  with assms(3) show ?thesis
    by (simp add: SearchCache_set_def Let_def)
qed

lemma SearchCache_set_then_get:
  assumes "SearchCache_set gk t1 c query focusMode d options None = Some c1"
    and "t2 \<le> t1 + defaultTTL (config c)"
  shows "fst (SearchCache_get gk t2 c1 query focusMode options) = Some d"
  using assms
  by (auto simp: SearchCache_set_def SearchCache_get_def Let_def updateAccessOrder_def
      AList.update_conv' isExpired_def split: option.splits)

lemma evictWhileFull_result:
  assumes "evictWhileFull c = Some c'"
  shows "config c' = config c \<and> int (length (cache c')) < maxSize (config c)"
proof (rule evictWhileFull.raw_induct
    [where P = "\<lambda>x y. config y = config x \<and> int (length (cache y)) < maxSize (config x)",
      OF _ assms])
  fix f x y
  assume IH: "\<And>x y. f x = Some y \<Longrightarrow>
      config y = config x \<and> int (length (cache y)) < maxSize (config x)"
    and step: "(if maxSize (config x) \<le> int (length (cache x)) then f (evictLRU x)
                else Some x) = Some y"
  show "config y = config x \<and> int (length (cache y)) < maxSize (config x)"
  proof (cases "maxSize (config x) \<le> int (length (cache x))")
    case True
    with step have "f (evictLRU x) = Some y" by simp
    from IH [OF this] show ?thesis by (simp add: evictLRU_config)
  next
    case False
    with step show ?thesis by auto
  qed
qed

lemma length_update_le: "length (AList.update k v al) \<le> Suc (length al)"
  by (induction al) auto

lemma update_new_key: "k \<notin> fst ` set al \<Longrightarrow> AList.update k v al = al @ [(k, v)]"
  by (induction al) auto

text \<open>A \<open>set\<close> that returns leaves at most \<open>maxSize\<close> entries.\<close>

lemma SearchCache_set_size:
  assumes "SearchCache_set gk now c query focusMode d options ttl = Some c'"
  shows "int (length (cache c')) \<le> maxSize (config c) \<and> config c' = config c"
proof -
  let ?key = "gk query focusMode options"
  let ?c1 = "if ?key \<in> fst ` set (cache c)
             then c\<lparr>accessOrder := Set_delete ?key (accessOrder c)\<rparr> else c"
  from assms obtain c2 where loop: "evictWhileFull ?c1 = Some c2"
    and c': "c' = updateAccessOrder ?key (c2\<lparr>cache := AList.update ?key
        \<lparr>data = d, timestamp = now,
         expiresAt = now + (case ttl of None \<Rightarrow> defaultTTL (config c) | Some t \<Rightarrow> t),
         hits = 0\<rparr> (cache c2)\<rparr>)"
    by (auto simp: SearchCache_set_def Let_def split: option.splits)
  from evictWhileFull_result [OF loop]
  have "config c2 = config c" and "int (length (cache c2)) < maxSize (config c)"
    by (simp_all split: if_splits)
  moreover have "length (cache c') \<le> Suc (length (cache c2))"
    unfolding c' by (simp add: updateAccessOrder_def length_update_le)
  moreover have "config c' = config c2" unfolding c' by (simp add: updateAccessOrder_def)
  ultimately show ?thesis by simp
qed

text \<open>A new key stored in a cache that is exactly at capacity: the head of the access
  order, and nothing else, is evicted, and the new key becomes the most recently used.\<close>

lemma SearchCache_set_new_key_at_capacity:
  assumes "cache_inv c" and "1 \<le> maxSize (config c)"
    and "gk query focusMode options \<notin> fst ` set (cache c)"
    and "int (length (cache c)) = maxSize (config c)"
  shows "\<exists>oldest rest. accessOrder c = oldest # rest \<and>
           SearchCache_set gk now c query focusMode d options ttl =
             Some \<lparr>cache = AList.delete oldest (cache c) @
                      [(gk query focusMode options,
                        \<lparr>data = d, timestamp = now,
                         expiresAt = now + (case ttl of None \<Rightarrow> defaultTTL (config c) | Some t \<Rightarrow> t),
                         hits = 0\<rparr>)],
                    accessOrder = rest @ [gk query focusMode options],
                    config = config c\<rparr>"
proof -
  let ?key = "gk query focusMode options"
  from assms(2,4) have "cache c \<noteq> []" by auto
  with assms(1) obtain oldest rest where ao: "accessOrder c = oldest # rest"
    by (cases "accessOrder c") (auto simp: cache_inv_def)
  have loop: "evictWhileFull c = Some (evictLRU c)"
    using assms(1,2,4) by (rule evictWhileFull_at_capacity)
  have ev: "evictLRU c = c\<lparr>cache := AList.delete oldest (cache c), accessOrder := rest\<rparr>"
    using ao assms(1) by (simp add: evictLRU_def Set_delete_def cache_inv_def)
  have k1: "?key \<notin> fst ` set (AList.delete oldest (cache c))"
    using assms(3) by (simp add: keys_delete)
  have k2: "?key \<notin> set rest" using assms(1,3) ao by (auto simp: cache_inv_def)
  show ?thesis
    using assms(3) loop ev ao k2
    by (simp add: SearchCache_set_def Let_def updateAccessOrder_def Set_add_def Set_delete_def
        update_new_key [OF k1])
qed

subsection \<open>Claims\<close>

text \<open>
  C10: \<open>has\<close> is not a pure observer. On a stored entry that is expired (the clock is
  past \<open>expiresAt\<close>) it returns false and removes the entry from the map and the key
  from the access order; on a stored entry that is live it returns true and leaves the
  whole cache as it was, so neither the hit count nor the position in the access order
  changes.
\<close>

theorem SearchCache_has_effect:
  assumes "map_of (cache c) (gk query focusMode options) = Some entry"
  shows "(now > expiresAt entry \<longrightarrow>
            SearchCache_has gk now c query focusMode options =
              (False, c\<lparr>cache := AList.delete (gk query focusMode options) (cache c),
                        accessOrder := removeAll (gk query focusMode options) (accessOrder c)\<rparr>))
       \<and> (now \<le> expiresAt entry \<longrightarrow>
            SearchCache_has gk now c query focusMode options = (True, c))"
  using assms by (simp add: SearchCache_has_def isExpired_def Set_delete_def Let_def)

theorem SearchCache_has_effect_witness:
  "SearchCache_has gk0 101 cache1 ''q'' ''m'' ''o'' =
     (False, \<lparr>cache = [], accessOrder = [], config = cfg0\<rparr>)
   \<and> SearchCache_has gk0 100 cache1 ''q'' ''m'' ''o'' = (True, cache1)"
  using SearchCache_has_effect [of cache1 gk0 "''q''" "''m''" "''o''"
      "\<lparr>data = ''v'', timestamp = 0, expiresAt = 100, hits = 3\<rparr>" 101]
    SearchCache_has_effect [of cache1 gk0 "''q''" "''m''" "''o''"
      "\<lparr>data = ''v'', timestamp = 0, expiresAt = 100, hits = 3\<rparr>" 100]
  by (simp add: cache1_def gk0_def)

text \<open>
  C3, as stated, at the boundary: an entry with \<open>expiresAt = 100\<close> read when the clock
  shows exactly 100. The claim has \<open>get\<close> return absent there; \<open>get\<close> returns the
  stored value.
\<close>

theorem SearchCache_get_at_expiresAt_counterexample:
  "map_of (cache cache1) (gk0 ''q'' ''m'' ''o'') =
     Some \<lparr>data = ''v'', timestamp = 0, expiresAt = 100, hits = 3\<rparr>
   \<and> (100::int) \<ge> expiresAt \<lparr>data = ''v'', timestamp = 0, expiresAt = 100, hits = 3\<rparr>
   \<and> fst (SearchCache_get gk0 100 cache1 ''q'' ''m'' ''o'') = Some ''v''"
  by (simp add: SearchCache_get_def cache1_def gk0_def isExpired_def Let_def)

text \<open>
  C3, amended: for every stored entry, whatever its hit count, \<open>get\<close> returns the stored
  value whenever the clock is at or before \<open>expiresAt\<close> (counting the hit and moving the
  key to the end of the access order), and returns absent, removing the entry and its
  access-order record, whenever the clock is strictly past \<open>expiresAt\<close>.
\<close>

theorem SearchCache_get_expiry:
  assumes "map_of (cache c) (gk query focusMode options) = Some entry"
  shows "(now \<le> expiresAt entry \<longrightarrow>
            SearchCache_get gk now c query focusMode options =
              (Some (data entry),
               c\<lparr>cache := AList.update (gk query focusMode options)
                            (entry\<lparr>hits := hits entry + 1\<rparr>) (cache c),
                 accessOrder := removeAll (gk query focusMode options) (accessOrder c)
                                  @ [gk query focusMode options]\<rparr>))
       \<and> (now > expiresAt entry \<longrightarrow>
            SearchCache_get gk now c query focusMode options =
              (None, c\<lparr>cache := AList.delete (gk query focusMode options) (cache c),
                       accessOrder := removeAll (gk query focusMode options) (accessOrder c)\<rparr>))"
  using assms
  by (simp add: SearchCache_get_def isExpired_def Set_delete_def Set_add_def Let_def
      updateAccessOrder_def)

theorem SearchCache_get_expiry_witness:
  "SearchCache_get gk0 100 cache1 ''q'' ''m'' ''o'' =
     (Some ''v'',
      \<lparr>cache = [(''q|m|o'', \<lparr>data = ''v'', timestamp = 0, expiresAt = 100, hits = 4\<rparr>)],
       accessOrder = [''q|m|o''], config = cfg0\<rparr>)
   \<and> SearchCache_get gk0 101 cache1 ''q'' ''m'' ''o'' =
     (None, \<lparr>cache = [], accessOrder = [], config = cfg0\<rparr>)"
  using SearchCache_get_expiry [of cache1 gk0 "''q''" "''m''" "''o''"
      "\<lparr>data = ''v'', timestamp = 0, expiresAt = 100, hits = 3\<rparr>" 100]
    SearchCache_get_expiry [of cache1 gk0 "''q''" "''m''" "''o''"
      "\<lparr>data = ''v'', timestamp = 0, expiresAt = 100, hits = 3\<rparr>" 101]
  by (simp add: cache1_def gk0_def)

text \<open>
  C7: a cache of capacity one, a \<open>set\<close> of a key and a second \<open>set\<close> of that same key.
  \<open>set\<close> takes the key out of the access order but leaves it in the map, so the map is
  still at capacity while the access order is empty: the eviction loop has nothing to
  evict and never ends. \<open>set\<close> does not return, and the key is never moved to the
  most-recently-used position.
\<close>

theorem SearchCache_set_same_key_capacity_one:
  "SearchCache_set gk0 0 \<lparr>cache = [], accessOrder = [], config = cfg1\<rparr>
       ''q'' ''m'' ''v'' ''o'' None = Some cache_one
   \<and> cache_inv cache_one
   \<and> SearchCache_set gk0 5 cache_one ''q'' ''m'' ''w'' ''o'' None = None"
proof -
  have "SearchCache_set gk0 0 \<lparr>cache = [], accessOrder = [], config = cfg1\<rparr>
       ''q'' ''m'' ''v'' ''o'' None = Some cache_one"
    by (simp add: SearchCache_set_def cache_one_def cfg1_def gk0_def evictWhileFull_below
        updateAccessOrder_def Set_add_def Set_delete_def Let_def)
  moreover have "SearchCache_set gk0 5 cache_one ''q'' ''m'' ''w'' ''o'' None = None"
    by (simp add: SearchCache_set_def cache_one_def cfg1_def gk0_def Set_delete_def
        evictWhileFull_stuck)
  moreover have "cache_inv cache_one"
    by (simp add: cache_inv_def cache_one_def)
  ultimately show ?thesis by simp
qed

text \<open>
  Were the stream to carry \<open>on_llm_stream\<close> events under the name
  \<open>CopilotResponseGenerator\<close>, their chunks would make up the response: after a cache
  miss and such a stream with a non-empty response, \<open>handleStream\<close> returns, the cache
  holds the response under the key of (query, \<open>copilot\<close>, mode), and a following call
  before the entry expires is served from the cache.
\<close>

lemma handleStream_caches_streamed_answer:
  assumes "cache_inv c" and "1 \<le> maxSize (config c)"
    and "SearchCache_get gk t0 c query ''copilot'' mode = (None, c0)"
    and "fst (consume events [] []) = answer" and "answer \<noteq> []"
    and "t2 \<le> t1 + defaultTTL (config c)"
  shows "searchAndAnswer gk t0 c query mode = (ChainStarted, c0)
       \<and> (\<exists>c1. handleStream gk t1 c0 (events, Finished) query mode =
                  Some (snd (consume events [] []) @ [EmitEnd], c1)
             \<and> map_of (cache c1) (gk query ''copilot'' mode) =
                  Some \<lparr>data = answer, timestamp = t1,
                        expiresAt = t1 + defaultTTL (config c), hits = 0\<rparr>
             \<and> fst (searchAndAnswer gk t2 c1 query mode) =
                  FromCache [EmitData ''response'' answer, EmitEnd])"
proof -
  from SearchCache_get_miss [OF assms(1,3)]
  have inv0: "cache_inv c0" and fresh: "gk query ''copilot'' mode \<notin> fst ` set (cache c0)"
    and cfg: "config c0 = config c" by auto
  have "1 \<le> maxSize (config c0)" using assms(2) cfg by simp
  from SearchCache_set_new_key [where gk = gk and query = query and focusMode = "''copilot''"
      and options = mode and now = t1 and d = answer and ttl = None, OF inv0 this fresh] cfg
  obtain c1 where set1: "SearchCache_set gk t1 c0 query ''copilot'' answer mode None = Some c1"
    and entry: "map_of (cache c1) (gk query ''copilot'' mode) =
        Some \<lparr>data = answer, timestamp = t1, expiresAt = t1 + defaultTTL (config c), hits = 0\<rparr>"
    by (auto simp: updateAccessOrder_def AList.update_conv')
  have hs: "handleStream gk t1 c0 (events, Finished) query mode =
      Some (snd (consume events [] []) @ [EmitEnd], c1)"
    using assms(4,5) set1 by (cases "consume events [] []") (simp add: handleStream_def)
  have "fst (SearchCache_get gk t2 c1 query ''copilot'' mode) = Some answer"
    using set1 assms(6) cfg by (intro SearchCache_set_then_get [where c = c0 and ?t1.0 = t1]) simp_all
  then have "fst (searchAndAnswer gk t2 c1 query mode) =
      FromCache [EmitData ''response'' answer, EmitEnd]"
    using assms(5) by (auto simp: searchAndAnswer_def split: prod.splits option.splits)
  moreover have "searchAndAnswer gk t0 c query mode = (ChainStarted, c0)"
    using assms(3) by (simp add: searchAndAnswer_def)
  ultimately show ?thesis using hs entry by blast
qed

lemma consume_append:
  "consume (xs @ ys) fullResponse out =
     (case consume xs fullResponse out of (f, out') \<Rightarrow> consume ys f out')"
  by (induction xs fullResponse out rule: consume.induct) simp_all

text \<open>Events none of which is an \<open>on_llm_stream\<close> under the name
  \<open>CopilotResponseGenerator\<close> leave the response empty.\<close>

lemma consume_chunks_of_chain:
  assumes "llmName \<noteq> ''CopilotResponseGenerator''"
  shows "consume (concat (map (\<lambda>c. [stream_event ''on_llm_stream'' llmName c,
                          stream_event ''on_parser_stream'' ''StrOutputParser'' c,
                          stream_event ''on_chain_stream'' ''CopilotResponseGenerator'' c])
                 chunks)) fullResponse out = (fullResponse, out)"
  using assms by (induction chunks) (simp_all add: stream_event_def)

lemma consume_copilotChainEvents:
  assumes "llmName \<noteq> ''CopilotResponseGenerator''" and "llmName \<noteq> ''CopilotSourceRetriever''"
  shows "consume (copilotChainEvents llmName chunks) [] [] =
           ([], [EmitData ''status'' ''Searching multiple sources...''])"
  unfolding copilotChainEvents_def stream_event_def
  using assms
  by (simp add: consume_append consume_chunks_of_chain [OF assms(1), unfolded stream_event_def])

lemma handleStream_own_chain:
  assumes "llmName \<noteq> ''CopilotResponseGenerator''" and "llmName \<noteq> ''CopilotSourceRetriever''"
  shows "handleStream gk now c (copilotChainEvents llmName chunks, Finished) query mode =
           Some ([EmitData ''status'' ''Searching multiple sources...'', EmitEnd], c)"
  by (simp add: handleStream_def consume_copilotChainEvents [OF assms])

text \<open>
  C8: a call for (query, mode) on an empty result cache starts the chain, and the chain
  streams the answer \<open>Hi there\<close> in two chunks, from a language model that reports as
  \<open>ChatOpenAI\<close>. \<open>handleStream\<close> looks for \<open>on_llm_stream\<close> events named
  \<open>CopilotResponseGenerator\<close>; that name belongs to the sequence, whose events are
  \<open>on_chain_\<close> events, and the \<open>on_llm_stream\<close> events carry the name of the model. No
  event is taken: no \<open>response\<close> is emitted, the response stays empty, nothing is stored,
  and the next call with the same query and mode starts the chain again.
\<close>

theorem handleStream_own_chain_caches_nothing:
  "searchAndAnswer gkm 0 cache_empty ''q'' balanced = (ChainStarted, cache_empty)
   \<and> handleStream gkm 10 cache_empty
        (copilotChainEvents ''ChatOpenAI'' [''Hi '', ''there''], Finished) ''q'' balanced =
       Some ([EmitData ''status'' ''Searching multiple sources...'', EmitEnd], cache_empty)
   \<and> searchAndAnswer gkm 20 cache_empty ''q'' balanced = (ChainStarted, cache_empty)"
proof -
  have "searchAndAnswer gkm t cache_empty ''q'' balanced = (ChainStarted, cache_empty)" for t
    by (simp add: searchAndAnswer_def SearchCache_get_def cache_empty_def)
  moreover have "handleStream gkm 10 cache_empty
        (copilotChainEvents ''ChatOpenAI'' [''Hi '', ''there''], Finished) ''q'' balanced =
       Some ([EmitData ''status'' ''Searching multiple sources...'', EmitEnd], cache_empty)"
    by (rule handleStream_own_chain) simp_all
  ultimately show ?thesis by simp
qed

section \<open>Theorems about the search agent\<close>

subsection \<open>Query generation\<close>

lemma generateMultipleQueries_no_match:
  "queriesMatch response = None \<Longrightarrow> generateMultipleQueries query response n = [query]"
  by (simp add: generateMultipleQueries_def)

lemma generateMultipleQueries_length:
  "length (generateMultipleQueries query response (maxQueries_of m)) \<le> maxQueries_of m"
  by (cases m) (auto simp: generateMultipleQueries_def maxQueries_of_def split: option.splits)

text \<open>
  C5: the language model answers with an empty \<open><queries></queries>\<close> block. The
  regular expression matches, the list of non-empty lines is empty, and that empty list
  is returned: no sub-query at all, and not the original query. The fallback to the
  original query is taken only when the expression does not match.
\<close>

theorem generateMultipleQueries_empty_block:
  "queriesMatch ''<queries></queries>'' = Some []
   \<and> generateMultipleQueries ''What is AI?'' ''<queries></queries>'' (maxQueries_of balanced) = []"
  by code_simp

subsection \<open>Reranking\<close>

lemma findIndex_bounds: "findIndex p xs < int (length xs) \<and> - 1 \<le> findIndex p xs"
  by (induction xs) (auto simp: Let_def)

lemma findIndex_nonneg_iff: "0 \<le> findIndex p xs \<longleftrightarrow> (\<exists>x \<in> set xs. p x)"
proof (induction xs)
  case Nil
  show ?case by simp
next
  case (Cons x xs)
  have "- 1 \<le> findIndex p xs" using findIndex_bounds [of p xs] by simp
  with Cons show ?case by (auto simp: Let_def)
qed

lemma findIndex_append:
  "findIndex p (xs @ ys) =
     (if \<exists>x \<in> set xs. p x then findIndex p xs
      else if findIndex p ys < 0 then - 1 else int (length xs) + findIndex p ys)"
proof (induction xs)
  case Nil
  have "- 1 \<le> findIndex p ys" using findIndex_bounds [of p ys] by simp
  then show ?case by auto
next
  case (Cons x xs)
  then show ?case by (auto simp: Let_def)
qed

lemma findIndex_at_prefix_end:
  assumes "p d"
  shows "findIndex p (pre @ d # ds) = int (length pre) \<longleftrightarrow> (\<forall>x \<in> set pre. \<not> p x)"
proof (cases "\<exists>x \<in> set pre. p x")
  case True
  then have "findIndex p (pre @ d # ds) = findIndex p pre" by (simp add: findIndex_append)
  moreover have "findIndex p pre < int (length pre)" using findIndex_bounds [of p pre] by simp
  ultimately show ?thesis using True by auto
next
  case False
  then show ?thesis using assms by (simp add: findIndex_append)
qed

lemma uniqueDocs_gen:
  "map snd (filter (\<lambda>(i, d). int i = findIndex (\<lambda>d'. url d' = url d) (pre @ ds))
              (enumerate (length pre) ds))
   = firstPerUrl (url ` set pre) ds"
proof (induction ds arbitrary: pre)
  case Nil
  show ?case by simp
next
  case (Cons d ds)
  have step: "map snd (filter (\<lambda>(i, d'). int i = findIndex (\<lambda>x. url x = url d') ((pre @ [d]) @ ds))
              (enumerate (length (pre @ [d])) ds)) = firstPerUrl (url ` set (pre @ [d])) ds"
    by (rule Cons.IH)
  have head: "(int (length pre) = findIndex (\<lambda>x. url x = url d) (pre @ d # ds))
               \<longleftrightarrow> url d \<notin> url ` set pre"
  proof -
    have "findIndex (\<lambda>x. url x = url d) (pre @ d # ds) = int (length pre)
            \<longleftrightarrow> (\<forall>x \<in> set pre. url x \<noteq> url d)"
      by (rule findIndex_at_prefix_end) simp
    moreover have "(\<forall>x \<in> set pre. url x \<noteq> url d) \<longleftrightarrow> url d \<notin> url ` set pre"
      by (auto simp: image_iff)
    ultimately show ?thesis by (simp only: eq_commute [of "int (length pre)"])
  qed
  show ?case
  proof (cases "url d \<in> url ` set pre")
    case True
    with head step show ?thesis by (simp add: insert_absorb)
  next
    case False
    with head step show ?thesis by simp
  qed
qed

lemma uniqueDocs_firstPerUrl: "uniqueDocs docs = firstPerUrl {} docs"
  using uniqueDocs_gen [of "[]" docs] by (simp add: uniqueDocs_def)

lemma firstPerUrl_urls: "url ` set (firstPerUrl seen ds) = url ` set ds - seen"
  by (induction ds arbitrary: seen) auto

lemma firstPerUrl_distinct: "distinct (map url (firstPerUrl seen ds))"
  by (induction ds arbitrary: seen) (auto simp: firstPerUrl_urls)

lemma firstPerUrl_first:
  "d \<in> set (firstPerUrl seen ds) \<Longrightarrow> find (\<lambda>x. url x = url d) ds = Some d"
proof (induction ds arbitrary: seen)
  case Nil
  then show ?case by simp
next
  case (Cons x ds)
  show ?case
  proof (cases "url x \<in> seen")
    case True
    with Cons.prems have mem: "d \<in> set (firstPerUrl seen ds)" by simp
    then have "url d \<in> url ` set ds - seen" using firstPerUrl_urls [of seen ds] by blast
    with True have "url x \<noteq> url d" by auto
    with Cons.IH [OF mem] show ?thesis by simp
  next
    case False
    show ?thesis
    proof (cases "d = x")
      case True
      then show ?thesis by simp
    next
      case neq: False
      with False Cons.prems have mem: "d \<in> set (firstPerUrl (insert (url x) seen) ds)" by simp
      then have "url d \<in> url ` set ds - insert (url x) seen"
        using firstPerUrl_urls [of "insert (url x) seen" ds] by blast
      then have "url x \<noteq> url d" by auto
      with Cons.IH [OF mem] show ?thesis by simp
    qed
  qed
qed

lemma uniqueDocs_props:
  "distinct (map url (uniqueDocs docs)) \<and> url ` set (uniqueDocs docs) = url ` set docs
   \<and> (\<forall>d \<in> set (uniqueDocs docs). find (\<lambda>x. url x = url d) docs = Some d)"
  by (simp add: uniqueDocs_firstPerUrl firstPerUrl_distinct firstPerUrl_urls firstPerUrl_first)

lemma similarities_eq:
  assumes "length docEmbeddings = length uniq"
  shows "similarities cs uniq docEmbeddings qe =
           map (\<lambda>i. \<lparr>index = i, similarity = cs qe (docEmbeddings ! i), doc = Some (uniq ! i)\<rparr>)
             [0..<length uniq]"
proof (rule nth_equalityI)
  show "length (similarities cs uniq docEmbeddings qe) =
      length (map (\<lambda>i. \<lparr>index = i, similarity = cs qe (docEmbeddings ! i), doc = Some (uniq ! i)\<rparr>)
             [0..<length uniq])"
    using assms by (simp add: similarities_def)
next
  fix i
  assume "i < length (similarities cs uniq docEmbeddings qe)"
  then have i: "i < length docEmbeddings" by (simp add: similarities_def)
  then have "similarities cs uniq docEmbeddings qe ! i =
      \<lparr>index = i, similarity = cs qe (docEmbeddings ! i), doc = at_index uniq i\<rparr>"
    by (simp add: similarities_def nth_enumerate_eq)
  with i assms show "similarities cs uniq docEmbeddings qe ! i =
      map (\<lambda>i. \<lparr>index = i, similarity = cs qe (docEmbeddings ! i), doc = Some (uniq ! i)\<rparr>)
             [0..<length uniq] ! i"
    by (simp add: at_index_def)
qed

lemma distinct_map_filter_sort_take:
  assumes "distinct (map f xs)"
  shows "distinct (map f (take n (sort_key g (filter P xs))))"
proof -
  have "distinct (map f (filter P xs))" using assms by (rule distinct_map_filter)
  then have "distinct (filter P xs)" and "inj_on f (set (filter P xs))"
    by (simp_all add: distinct_map)
  then have "distinct (map f (sort_key g (filter P xs)))"
    by (simp add: distinct_map)
  then have "distinct (take n (map f (sort_key g (filter P xs))))"
    by (rule distinct_take)
  then show ?thesis by (simp only: take_map)
qed

lemma rankedItems_sorted:
  "sorted_wrt (\<lambda>a b. similarity a \<ge> similarity b) (rankedItems th items)"
proof -
  have "sorted (map (\<lambda>item. - similarity item)
          (sort_key (\<lambda>item. - similarity item) (filter (\<lambda>item. similarity item > th) items)))"
    by (rule sorted_sort_key)
  then have "sorted (take 15 (map (\<lambda>item. - similarity item)
          (sort_key (\<lambda>item. - similarity item) (filter (\<lambda>item. similarity item > th) items))))"
    by (rule sorted_wrt_take)
  then show ?thesis
    by (simp add: rankedItems_def take_map sorted_wrt_map)
qed

lemma rankedItems_subset:
  "set (rankedItems th items) \<subseteq> {item \<in> set items. similarity item > th}"
  unfolding rankedItems_def using set_take_subset [of 15] by fastforce

lemma rankedItems_length: "length (rankedItems th items) \<le> 15"
  by (simp add: rankedItems_def)

lemma rankedItems_complete:
  assumes "item \<in> set items" and "similarity item > th" and "item \<notin> set (rankedItems th items)"
  shows "length (rankedItems th items) = 15 \<and>
         (\<forall>r \<in> set (rankedItems th items). similarity r \<ge> similarity item)"
proof -
  define S where "S = sort_key (\<lambda>item. - similarity item) (filter (\<lambda>item. similarity item > th) items)"
  have R: "rankedItems th items = take 15 S" by (simp add: rankedItems_def S_def)
  have inS: "item \<in> set S" using assms(1,2) by (simp add: S_def)
  have split: "S = take 15 S @ drop 15 S" by simp
  from inS assms(3) R have inD: "item \<in> set (drop 15 S)"
    by (metis Un_iff set_append split)
  then have "drop 15 S \<noteq> []" by auto
  then have len: "length (take 15 S) = 15" by simp
  have "sorted (map (\<lambda>item. - similarity item) S)" unfolding S_def by (rule sorted_sort_key)
  then have "sorted (map (\<lambda>item. - similarity item) (take 15 S) @ map (\<lambda>item. - similarity item) (drop 15 S))"
    by (metis map_append split)
  then have "\<forall>r \<in> set (take 15 S). - similarity r \<le> - similarity item"
    using inD by (auto simp: sorted_append)
  with len R show ?thesis by simp
qed

lemma similarities_items:
  assumes "length docEmbeddings = length uniq"
    and "item \<in> set (similarities cs uniq docEmbeddings qe)"
  shows "index item < length uniq \<and> similarity item = cs qe (docEmbeddings ! index item)
         \<and> doc item = Some (uniq ! index item)"
  using assms(2) unfolding similarities_eq [OF assms(1)] by auto

lemma similarities_nth:
  assumes "length docEmbeddings = length uniq" and "j < length uniq"
  shows "\<lparr>index = j, similarity = cs qe (docEmbeddings ! j), doc = Some (uniq ! j)\<rparr>
           \<in> set (similarities cs uniq docEmbeddings qe)"
  using assms(2) unfolding similarities_eq [OF assms(1)] by auto

lemma similarities_distinct_index:
  assumes "length docEmbeddings = length uniq"
  shows "distinct (map index (similarities cs uniq docEmbeddings qe))"
proof -
  have "map index (similarities cs uniq docEmbeddings qe) = [0..<length uniq]"
    unfolding similarities_eq [OF assms] by (simp add: comp_def)
  then show ?thesis by simp
qed

lemma ranked_indices:
  fixes cs :: "'e \<Rightarrow> 'e \<Rightarrow> real" and th :: real and qe :: 'e
    and uniq :: "Document list" and embs :: "'e list"
  assumes len: "length embs = length uniq"
  defines "R \<equiv> rankedItems th (similarities cs uniq embs qe)"
  shows "map doc R = map (\<lambda>i. Some (uniq ! i)) (map index R)"
    and "length (map index R) \<le> 15"
    and "distinct (map index R)"
    and "\<forall>i \<in> set (map index R). i < length uniq \<and> cs qe (embs ! i) > th"
    and "sorted_wrt (\<lambda>i j. cs qe (embs ! i) \<ge> cs qe (embs ! j)) (map index R)"
    and "\<forall>j < length uniq. cs qe (embs ! j) > th \<and> j \<notin> set (map index R) \<longrightarrow>
           length (map index R) = 15 \<and> (\<forall>i \<in> set (map index R). cs qe (embs ! i) \<ge> cs qe (embs ! j))"
proof -
  have sub: "set R \<subseteq> {item \<in> set (similarities cs uniq embs qe). similarity item > th}"
    unfolding R_def by (rule rankedItems_subset)
  have item: "index item < length uniq \<and> similarity item = cs qe (embs ! index item)
         \<and> doc item = Some (uniq ! index item) \<and> similarity item > th" if "item \<in> set R" for item
    using that sub similarities_items [OF len, of item cs qe] by auto
  show "map doc R = map (\<lambda>i. Some (uniq ! i)) (map index R)"
    using item by simp
  show "length (map index R) \<le> 15" by (simp add: R_def rankedItems_length)
  show "distinct (map index R)"
    unfolding R_def rankedItems_def
    by (rule distinct_map_filter_sort_take) (rule similarities_distinct_index [OF len])
  show in_range: "\<forall>i \<in> set (map index R). i < length uniq \<and> cs qe (embs ! i) > th"
  proof
    fix i
    assume "i \<in> set (map index R)"
    then obtain it where it: "it \<in> set R" "i = index it" by auto
    from item [OF it(1)] have "index it < length uniq" and "cs qe (embs ! index it) > th"
      by simp_all
    with it(2) show "i < length uniq \<and> cs qe (embs ! i) > th" by simp
  qed
  have "sorted_wrt (\<lambda>a b. similarity a \<ge> similarity b) R"
    unfolding R_def by (rule rankedItems_sorted)
  then have "sorted_wrt (\<lambda>a b. cs qe (embs ! index a) \<ge> cs qe (embs ! index b)) R"
    by (rule sorted_wrt_mono_rel [rotated]) (use item in auto)
  then show "sorted_wrt (\<lambda>i j. cs qe (embs ! i) \<ge> cs qe (embs ! j)) (map index R)"
    by (simp add: sorted_wrt_map)
  show "\<forall>j < length uniq. cs qe (embs ! j) > th \<and> j \<notin> set (map index R) \<longrightarrow>
           length (map index R) = 15 \<and> (\<forall>i \<in> set (map index R). cs qe (embs ! i) \<ge> cs qe (embs ! j))"
  proof (intro allI impI)
    fix j
    assume j: "j < length uniq" and h: "cs qe (embs ! j) > th \<and> j \<notin> set (map index R)"
    let ?it = "\<lparr>index = j, similarity = cs qe (embs ! j), doc = Some (uniq ! j)\<rparr>"
    have mem: "?it \<in> set (similarities cs uniq embs qe)" using len j by (rule similarities_nth)
    have notin: "?it \<notin> set R"
    proof
      assume "?it \<in> set R"
      then have "index ?it \<in> set (map index R)" by (metis image_eqI set_map)
      with h show False by simp
    qed
    have "length R = 15 \<and> (\<forall>r \<in> set R. similarity r \<ge> similarity ?it)"
      using rankedItems_complete [OF mem, of th] h notin unfolding R_def by simp
    with item show "length (map index R) = 15 \<and>
        (\<forall>i \<in> set (map index R). cs qe (embs ! i) \<ge> cs qe (embs ! j))"
      by auto
  qed
qed

lemma uniqueDocs_three: "uniqueDocs [doc_a, doc_b, doc_a2] = [doc_a, doc_b]"
  by code_simp

lemma uniqueDocs_one: "uniqueDocs [doc_a] = [doc_a]"
  by code_simp

text \<open>
  C6, as stated, at the threshold: one document whose similarity to the query is 0.5,
  with a threshold of 0.5. Its score is not below the threshold, yet it is discarded and
  the result is empty.
\<close>

theorem rerank_at_threshold_counterexample:
  "\<not> computeSimilarity0 1 (real (length (pageContent doc_a))) < 0.5
   \<and> rerankAndDeduplicate embedDocuments0 embedQuery0 computeSimilarity0 0.5 [doc_a] ''q'' = []"
proof -
  have "rerankAndDeduplicate embedDocuments0 embedQuery0 computeSimilarity0 0.5 [doc_a] ''q'' = []"
    unfolding rerankAndDeduplicate_def uniqueDocs_one Let_def
    by (simp add: embedDocuments0_def embedQuery0_def similarities_def rankedItems_def
        computeSimilarity0_def doc_a_def)
  then show ?thesis by (simp add: computeSimilarity0_def doc_a_def)
qed

text \<open>
  C6, amended: for a non-empty document list, reranking keeps the first document of
  every URL; when the embedding call succeeds with one embedding per kept document, the
  result lists kept documents only, each at most once, every one with a similarity
  strictly above the threshold, in descending order of similarity, at most 15 of them,
  and a kept document strictly above the threshold is left out only when 15 documents
  of at least its similarity are returned. When an embedding call fails, the result is
  the first 15 kept documents in their original order.
\<close>

theorem rerankAndDeduplicate_ranked:
  assumes "docs \<noteq> []"
  shows "distinct (map url (uniqueDocs docs)) \<and> url ` set (uniqueDocs docs) = url ` set docs
     \<and> (\<forall>d \<in> set (uniqueDocs docs). find (\<lambda>x. url x = url d) docs = Some d)
     \<and> (embedDocuments (map pageContent (uniqueDocs docs)) = None \<or> embedQuery query = None \<longrightarrow>
          rerankAndDeduplicate embedDocuments embedQuery cs th docs query =
            map Some (take 15 (uniqueDocs docs)))
     \<and> (\<forall>embs qe.
          embedDocuments (map pageContent (uniqueDocs docs)) = Some embs \<and>
          embedQuery query = Some qe \<and> length embs = length (uniqueDocs docs) \<longrightarrow>
          (\<exists>is. rerankAndDeduplicate embedDocuments embedQuery cs th docs query =
                  map (\<lambda>i. Some (uniqueDocs docs ! i)) is
             \<and> length is \<le> 15 \<and> distinct is
             \<and> (\<forall>i \<in> set is. i < length (uniqueDocs docs) \<and> cs qe (embs ! i) > th)
             \<and> sorted_wrt (\<lambda>i j. cs qe (embs ! i) \<ge> cs qe (embs ! j)) is
             \<and> (\<forall>j < length (uniqueDocs docs). cs qe (embs ! j) > th \<and> j \<notin> set is \<longrightarrow>
                  length is = 15 \<and> (\<forall>i \<in> set is. cs qe (embs ! i) \<ge> cs qe (embs ! j)))))"
proof -
  have fallback: "embedDocuments (map pageContent (uniqueDocs docs)) = None \<or> embedQuery query = None \<longrightarrow>
          rerankAndDeduplicate embedDocuments embedQuery cs th docs query =
            map Some (take 15 (uniqueDocs docs))"
    using assms by (auto simp: rerankAndDeduplicate_def Let_def split: option.splits)
  have ranked: "\<exists>is. rerankAndDeduplicate embedDocuments embedQuery cs th docs query =
                  map (\<lambda>i. Some (uniqueDocs docs ! i)) is
             \<and> length is \<le> 15 \<and> distinct is
             \<and> (\<forall>i \<in> set is. i < length (uniqueDocs docs) \<and> cs qe (embs ! i) > th)
             \<and> sorted_wrt (\<lambda>i j. cs qe (embs ! i) \<ge> cs qe (embs ! j)) is
             \<and> (\<forall>j < length (uniqueDocs docs). cs qe (embs ! j) > th \<and> j \<notin> set is \<longrightarrow>
                  length is = 15 \<and> (\<forall>i \<in> set is. cs qe (embs ! i) \<ge> cs qe (embs ! j)))"
    if e: "embedDocuments (map pageContent (uniqueDocs docs)) = Some embs"
      and q: "embedQuery query = Some qe" and len: "length embs = length (uniqueDocs docs)"
    for embs qe
  proof -
    let ?R = "rankedItems th (similarities cs (uniqueDocs docs) embs qe)"
    have "rerankAndDeduplicate embedDocuments embedQuery cs th docs query = map doc ?R"
      using assms e q by (simp add: rerankAndDeduplicate_def Let_def)
    with ranked_indices [where cs = cs and th = th and qe = qe, OF len] show ?thesis
      by (intro exI [of _ "map index ?R"]) simp
  qed
  from uniqueDocs_props [of docs] fallback ranked show ?thesis by blast
qed

theorem rerankAndDeduplicate_ranked_witness:
  "[doc_a, doc_b, doc_a2] \<noteq> []
   \<and> distinct (map url (uniqueDocs [doc_a, doc_b, doc_a2]))
   \<and> (\<exists>is. rerankAndDeduplicate embedDocuments0 embedQuery0 computeSimilarity0 0.45
               [doc_a, doc_b, doc_a2] ''q'' =
             map (\<lambda>i. Some (uniqueDocs [doc_a, doc_b, doc_a2] ! i)) is
          \<and> length is \<le> 15 \<and> distinct is
          \<and> sorted_wrt (\<lambda>i j. computeSimilarity0 1 ([5, 4] ! i) \<ge> computeSimilarity0 1 ([5, 4] ! j)) is)"
proof -
  have ne: "[doc_a, doc_b, doc_a2] \<noteq> []" by simp
  have e: "embedDocuments0 (map pageContent (uniqueDocs [doc_a, doc_b, doc_a2])) = Some [5, 4]"
    unfolding uniqueDocs_three by (simp add: embedDocuments0_def doc_a_def doc_b_def)
  have q: "embedQuery0 ''q'' = Some 1" by (simp add: embedQuery0_def)
  have len: "length [5, 4 :: real] = length (uniqueDocs [doc_a, doc_b, doc_a2])"
    unfolding uniqueDocs_three by simp
  from rerankAndDeduplicate_ranked [where embedDocuments = embedDocuments0
      and embedQuery = embedQuery0 and query = "''q''" and cs = computeSimilarity0
      and th = "0.45", OF ne] e q len
  show ?thesis by blast
qed

section \<open>Theorems about the adaptive timeout\<close>

lemma p95_index_in_range:
  assumes "0 < n"
  shows "nat (\<lceil>real n * 0.95\<rceil> - 1) < n"
proof -
  have "real n * 0.95 \<le> real n" by simp
  then have "\<lceil>real n * 0.95\<rceil> \<le> int n" by (simp add: ceiling_le)
  with assms show ?thesis by linarith
qed

lemma percentile95_code:
  assumes "ds \<noteq> []"
  shows "at_index (sort ds) (nat (\<lceil>real (length ds) * 0.95\<rceil> - 1)) = Some (percentile95 ds)"
proof -
  have "nat (\<lceil>real (length ds) * 0.95\<rceil> - 1) < length ds"
    using assms by (intro p95_index_in_range) simp
  moreover have "nat (\<lceil>real (length ds) * 0.95\<rceil> - 1) = nat \<lceil>0.95 * real (length ds)\<rceil> - 1"
    by (simp add: nat_diff_distrib' mult.commute)
  ultimately show ?thesis by (simp add: at_index_def percentile95_def)
qed

lemma recentSuccessful_Nil: "recentSuccessful cfg [] = []"
  by (simp add: recentSuccessful_def slice_from_def)

text \<open>When the value at the percentile index is 0 (19 of 20 recent successes took 0 ms),
  \<open>durations[p95Index] || maxDuration\<close> takes the maximum instead of the percentile.\<close>

lemma calculateAdaptiveTimeout_zero_percentile:
  "percentile95 (replicate 19 0 @ [50000]) = 0
   \<and> calculateAdaptiveTimeout timeout_cfg0 cached_metrics ''search-web'' = 52000"
  by code_simp

text \<open>
  C4, as stated, with one successful call of 200000 ms (run under a custom timeout) and
  the default bounds: the adaptive timeout is the upper bound 120000, which is below
  the 95th percentile plus the minimum buffer, 202000.
\<close>

theorem adaptive_timeout_capped_counterexample:
  "map duration (recentSuccessful timeout_cfg0
       (case slow_metrics ''search-web'' of None \<Rightarrow> [] | Some h \<Rightarrow> h)) = [200000]
   \<and> percentile95 [200000] = 200000
   \<and> calculateAdaptiveTimeout timeout_cfg0 slow_metrics ''search-web'' = 120000
   \<and> \<not> percentile95 [200000] + 2000 \<le> calculateAdaptiveTimeout timeout_cfg0 slow_metrics ''search-web''"
  by code_simp

text \<open>
  C4, amended: with no successful record among the recent history the adaptive timeout is
  the base timeout. Otherwise, when the nearest-rank 95th percentile of the (at most 20)
  most recent successful durations is not zero, the timeout is that percentile plus
  \<open>max (average * 0.5) 2000\<close>, rounded up, raised to \<open>minTimeout\<close> and then capped at
  \<open>maxTimeout\<close>. It never exceeds \<open>maxTimeout\<close>; it is at least \<open>minTimeout\<close> when
  \<open>minTimeout \<le> maxTimeout\<close>; and it is at least the percentile plus the buffer (so at
  least the percentile plus 2000) whenever that sum, rounded up, does not exceed
  \<open>maxTimeout\<close>.
\<close>

theorem calculateAdaptiveTimeout_value:
  assumes ds: "ds = map duration (recentSuccessful cfg (case metrics rt of None \<Rightarrow> [] | Some h \<Rightarrow> h))"
    and t: "t = calculateAdaptiveTimeout cfg metrics rt"
    and X: "X = \<lceil>real_of_int (percentile95 ds) + max (average ds * 0.5) 2000\<rceil>"
  shows "(ds = [] \<longrightarrow> t = baseTimeout cfg)
       \<and> (ds \<noteq> [] \<and> percentile95 ds \<noteq> 0 \<longrightarrow>
            t = min (maxTimeout cfg) (max (minTimeout cfg) X)
            \<and> t \<le> maxTimeout cfg
            \<and> (minTimeout cfg \<le> maxTimeout cfg \<longrightarrow> minTimeout cfg \<le> t)
            \<and> (X \<le> maxTimeout cfg \<longrightarrow>
                 real_of_int (percentile95 ds) + max (average ds * 0.5) 2000 \<le> real_of_int t
                 \<and> percentile95 ds + 2000 \<le> t))"
proof (intro conjI impI)
  assume "ds = []"
  then show "t = baseTimeout cfg"
    using ds unfolding t calculateAdaptiveTimeout_def
    by (cases "metrics rt") (auto simp: Let_def recentSuccessful_Nil split: list.splits)
next
  assume h: "ds \<noteq> [] \<and> percentile95 ds \<noteq> 0"
  then obtain d rest where cons: "ds = d # rest" by (cases ds) auto
  have hist: "(case metrics rt of None \<Rightarrow> [] | Some h \<Rightarrow> h) \<noteq> []"
    using h ds by (auto simp: recentSuccessful_Nil)
  have p: "at_index (sort ds) (nat (\<lceil>real (length ds) * 0.95\<rceil> - 1)) = Some (percentile95 ds)"
    using h by (intro percentile95_code) simp
  have "calculateAdaptiveTimeout cfg metrics rt =
      min (maxTimeout cfg) (max (minTimeout cfg)
        \<lceil>real_of_int (percentile95 ds) + max (real_of_int (sum_list ds) / real (length ds) * 0.5) 2000\<rceil>)"
    using hist h p ds [symmetric] cons
    unfolding calculateAdaptiveTimeout_def Let_def
    by (simp del: sort_key_simps)
  then show eq: "t = min (maxTimeout cfg) (max (minTimeout cfg) X)"
    by (simp add: t X average_def)
  then show "t \<le> maxTimeout cfg" by simp
  show "minTimeout cfg \<le> t" if "minTimeout cfg \<le> maxTimeout cfg"
    using that eq by simp
  have Xge: "real_of_int (percentile95 ds) + max (average ds * 0.5) 2000 \<le> real_of_int X"
    unfolding X by (rule le_of_int_ceiling)
  show "real_of_int (percentile95 ds) + max (average ds * 0.5) 2000 \<le> real_of_int t"
    if "X \<le> maxTimeout cfg"
  proof -
    from that eq have "X \<le> t" by simp
    with Xge show ?thesis by linarith
  qed
  show "percentile95 ds + 2000 \<le> t" if "X \<le> maxTimeout cfg"
  proof -
    from that eq have "X \<le> t" by simp
    moreover have "real_of_int (percentile95 ds) + 2000 \<le> real_of_int X" using Xge by simp
    ultimately have "real_of_int (percentile95 ds + 2000) \<le> real_of_int t" by simp
    then show ?thesis by linarith
  qed
qed

theorem calculateAdaptiveTimeout_value_witness:
  "calculateAdaptiveTimeout timeout_cfg0 usual_metrics ''search-web'' = 9501
   \<and> percentile95 [3001, 7000] + 2000 \<le> calculateAdaptiveTimeout timeout_cfg0 usual_metrics ''search-web''
   \<and> calculateAdaptiveTimeout timeout_cfg0 usual_metrics ''other'' = baseTimeout timeout_cfg0"
proof -
  have ds: "[3001, 7000] = map duration (recentSuccessful timeout_cfg0
      (case usual_metrics ''search-web'' of None \<Rightarrow> [] | Some h \<Rightarrow> h))"
    by code_simp
  have ds': "[] = map duration (recentSuccessful timeout_cfg0
      (case usual_metrics ''other'' of None \<Rightarrow> [] | Some h \<Rightarrow> h))"
    by code_simp
  have p: "percentile95 [3001, 7000] = 7000" by code_simp
  have X: "\<lceil>real_of_int (percentile95 [3001, 7000]) + max (average [3001, 7000] * 0.5) 2000\<rceil> = 9501"
    by code_simp
  have cfg: "maxTimeout timeout_cfg0 = 120000" "minTimeout timeout_cfg0 = 5000"
    by (simp_all add: timeout_cfg0_def)
  from calculateAdaptiveTimeout_value [where cfg = timeout_cfg0 and metrics = usual_metrics
      and rt = "''search-web''" and ds = "[3001, 7000]", OF ds refl refl, unfolded X]
    calculateAdaptiveTimeout_value [where cfg = timeout_cfg0 and metrics = usual_metrics
      and rt = "''other''" and ds = "[]", OF ds' refl refl]
  show ?thesis by (simp add: p cfg)
qed

section \<open>Theorems about the request deduplicator\<close>

lemma set_update_cases:
  "x \<in> set (AList.update k v al) \<Longrightarrow> x = (k, v) \<or> x \<in> set al"
  by (induction al) (auto split: if_splits)

lemma set_delete_subset: "set (AList.delete k al) \<subseteq> set al"
  by (auto simp: AList.delete_eq)

lemma dedup_inv_init: "dedup_inv cfg dedup_init"
  by (simp add: dedup_inv_def dedup_init_def)

lemma dedup_inv_shrink:
  assumes "dedup_inv cfg s" and "set al \<subseteq> set (pendingRequests s)"
  shows "dedup_inv cfg (s\<lparr>pendingRequests := al\<rparr>)"
  using assms by (auto simp: dedup_inv_def list_all_iff)

lemma dedup_inv_call_requestFn:
  assumes "dedup_inv cfg s"
  shows "dedup_inv cfg (snd (call_requestFn key s))"
proof -
  have fresh: "nextPromise s \<notin> snd ` set (requestFnCalls s)"
    using assms by (fastforce simp: dedup_inv_def list_all_iff)
  show ?thesis
    using assms fresh
    by (auto simp: dedup_inv_def call_requestFn_def list_all_iff less_Suc_eq)
qed

lemma dedup_inv_register:
  assumes "dedup_inv cfg s" and "enabled cfg"
  shows "dedup_inv cfg (snd (register_request now key s))"
proof -
  let ?s1 = "snd (call_requestFn key s)"
  have inv1: "dedup_inv cfg ?s1" using assms(1) by (rule dedup_inv_call_requestFn)
  have logged: "(key, nextPromise s) \<in> set (requestFnCalls ?s1)"
    by (simp add: call_requestFn_def)
  have "dedup_inv cfg (?s1\<lparr>pendingRequests :=
      AList.update key \<lparr>promise = nextPromise s, pending_timestamp = now, requestCount = 1\<rparr>
        (pendingRequests ?s1)\<rparr>)"
    using inv1 logged assms(2)
    by (auto simp: dedup_inv_def list_all_iff dest!: set_update_cases)
  then show ?thesis
    by (simp add: register_request_def call_requestFn_def)
qed

lemma dedup_inv_deduplicate:
  assumes "dedup_inv cfg s"
  shows "dedup_inv cfg (snd (deduplicate cfg now key s))"
proof (cases "enabled cfg")
  case False
  with assms show ?thesis by (simp add: deduplicate_def dedup_inv_call_requestFn)
next
  case True
  show ?thesis
  proof (cases "map_of (pendingRequests s) key")
    case None
    with True assms show ?thesis by (simp add: deduplicate_def dedup_inv_register)
  next
    case (Some existing)
    then have mem: "(key, existing) \<in> set (pendingRequests s)" by (rule map_of_SomeD)
    show ?thesis
    proof (cases "now - pending_timestamp existing < maxPendingTime cfg")
      case young: True
      have "dedup_inv cfg (s\<lparr>pendingRequests :=
          AList.update key (existing\<lparr>requestCount := requestCount existing + 1\<rparr>)
            (pendingRequests s)\<rparr>)"
        using assms mem
        by (auto simp: dedup_inv_def list_all_iff dest!: set_update_cases)
      with True Some young show ?thesis by (simp add: deduplicate_def)
    next
      case old: False
      have "dedup_inv cfg (s\<lparr>pendingRequests := AList.delete key (pendingRequests s)\<rparr>)"
        using assms by (rule dedup_inv_shrink) (simp add: set_delete_subset)
      then have "dedup_inv cfg (snd (register_request now key
          (s\<lparr>pendingRequests := AList.delete key (pendingRequests s)\<rparr>)))"
        using True by (rule dedup_inv_register)
      with True Some old show ?thesis by (simp add: deduplicate_def)
    qed
  qed
qed

lemma dedup_inv_step:
  assumes "dedup_inv cfg s"
  shows "dedup_inv cfg (dedup_step cfg ev s)"
proof (cases ev)
  case (Call now key)
  with assms show ?thesis by (simp add: dedup_inv_deduplicate)
next
  case (Settles p)
  have u: "dedup_inv cfg (s\<lparr>unsettled := removeAll p (unsettled s)\<rparr>)"
    using assms by (simp add: dedup_inv_def)
  then have "dedup_inv cfg (deduplicate_finally key (s\<lparr>unsettled := removeAll p (unsettled s)\<rparr>))"
    for key
    unfolding deduplicate_finally_def by (rule dedup_inv_shrink) (simp add: set_delete_subset)
  with Settles assms u show ?thesis
    by (simp add: operation_settles_def split: option.splits)
next
  case (Cleanup now)
  with assms show ?thesis by (simp add: dedup_cleanup_def dedup_inv_shrink)
next
  case Clear
  with assms show ?thesis by (simp add: dedup_clear_def dedup_inv_shrink)
qed

lemma dedup_inv_run: "dedup_inv cfg s \<Longrightarrow> dedup_inv cfg (dedup_run cfg s evs)"
  by (induction evs arbitrary: s) (simp_all add: dedup_inv_step)

lemma filter_promise_unique:
  assumes "distinct (map snd xs)" and "(k, p) \<in> set xs"
  shows "filter (\<lambda>(k', p'). p' = p) xs = [(k, p)]"
  using assms
proof (induction xs)
  case Nil
  then show ?case by simp
next
  case (Cons x xs)
  show ?case
  proof (cases "x = (k, p)")
    case True
    with Cons.prems(1) have "p \<notin> snd ` set xs" by simp
    then have "filter (\<lambda>(k', p'). p' = p) xs = []"
      by (force simp: filter_empty_conv)
    with True show ?thesis by simp
  next
    case False
    with Cons.prems have mem: "(k, p) \<in> set xs" by simp
    then have "p \<in> snd ` set xs" by force
    with Cons.prems(1) have "snd x \<noteq> p" by auto
    with Cons.IH mem Cons.prems(1) show ?thesis by (cases x) simp
  qed
qed

lemma deduplicate_calls_join:
  assumes "enabled cfg" and "map_of (pendingRequests s) key = Some e"
    and "\<forall>t \<in> set ts. t - pending_timestamp e < maxPendingTime cfg"
  shows "fst (deduplicate_calls cfg key ts s) = replicate (length ts) (promise e)
       \<and> requestFnCalls (snd (deduplicate_calls cfg key ts s)) = requestFnCalls s
       \<and> map_of (pendingRequests (snd (deduplicate_calls cfg key ts s))) key =
           Some (e\<lparr>requestCount := requestCount e + length ts\<rparr>)"
  using assms(2,3)
proof (induction ts arbitrary: s e)
  case Nil
  then show ?case by simp
next
  case (Cons t ts)
  let ?e1 = "e\<lparr>requestCount := requestCount e + 1\<rparr>"
  let ?s1 = "s\<lparr>pendingRequests := AList.update key ?e1 (pendingRequests s)\<rparr>"
  have d: "deduplicate cfg t key s = (promise e, ?s1)"
    using assms(1) Cons.prems by (simp add: deduplicate_def)
  have entry1: "map_of (pendingRequests ?s1) key = Some ?e1"
    by (simp add: AList.update_conv')
  have young1: "\<forall>t \<in> set ts. t - pending_timestamp ?e1 < maxPendingTime cfg"
    using Cons.prems(2) by simp
  obtain ps s2 where rest: "deduplicate_calls cfg key ts ?s1 = (ps, s2)"
    by (cases "deduplicate_calls cfg key ts ?s1")
  from Cons.IH [OF entry1 young1] rest
  have "ps = replicate (length ts) (promise e)" and "requestFnCalls s2 = requestFnCalls s"
    and "map_of (pendingRequests s2) key = Some (e\<lparr>requestCount := requestCount e + 1 + length ts\<rparr>)"
    by simp_all
  with d rest show ?case by simp
qed

text \<open>In any state the deduplicator reaches, while its table holds an entry for a key,
  calls for that key made at times at which the entry is younger than \<open>maxPendingTime\<close>
  all hand back the promise of the entry and invoke no \<open>requestFn\<close>, and that promise is
  the result of exactly one invocation, made for this key.\<close>

lemma deduplicate_joins_entry:
  assumes "s = dedup_run cfg dedup_init evs"
    and "map_of (pendingRequests s) key = Some e"
    and "\<forall>t \<in> set ts. t - pending_timestamp e < maxPendingTime cfg"
  shows "filter (\<lambda>(k, p). p = promise e) (requestFnCalls s) = [(key, promise e)]
       \<and> fst (deduplicate_calls cfg key ts s) = replicate (length ts) (promise e)
       \<and> requestFnCalls (snd (deduplicate_calls cfg key ts s)) = requestFnCalls s"
proof -
  have inv: "dedup_inv cfg s"
    unfolding assms(1) using dedup_inv_init by (rule dedup_inv_run)
  from assms(2) have mem: "(key, e) \<in> set (pendingRequests s)" by (rule map_of_SomeD)
  with inv have en: "enabled cfg" and logged: "(key, promise e) \<in> set (requestFnCalls s)"
    and dist: "distinct (map snd (requestFnCalls s))"
    by (auto simp: dedup_inv_def list_all_iff)
  from filter_promise_unique [OF dist logged] deduplicate_calls_join [OF en assms(2,3)]
  show ?thesis by simp
qed

text \<open>
  C2: a first call for a key at time 0; a second at 30000, when the entry is no longer
  younger than \<open>maxPendingTime\<close>, so that the operation is invoked again and registered
  anew; then the first operation settles, and the \<open>finally\<close> block of the first call
  deletes the key, which by now holds the entry of the second operation. That operation
  is still pending and was registered 2000 ms before a third call at 32000; the third
  call finds no entry, invokes the operation once more and hands back another promise
  than the second call got. Two invocations serve the callers at 30000 and 32000, which
  observe different promises.
\<close>

theorem deduplicate_after_stale_finally:
  "fst (deduplicate dedup_cfg0 30000 ''k'' (dedup_run dedup_cfg0 dedup_init [Call 0 ''k''])) = 1
   \<and> unsettled (dedup_run dedup_cfg0 dedup_init
        [Call 0 ''k'', Call 30000 ''k'', Settles 0]) = [1]
   \<and> map_of (pendingRequests (dedup_run dedup_cfg0 dedup_init
        [Call 0 ''k'', Call 30000 ''k'', Settles 0])) ''k'' = None
   \<and> 32000 - 30000 < maxPendingTime dedup_cfg0
   \<and> fst (deduplicate dedup_cfg0 32000 ''k'' (dedup_run dedup_cfg0 dedup_init
        [Call 0 ''k'', Call 30000 ''k'', Settles 0])) = 2
   \<and> requestFnCalls (snd (deduplicate dedup_cfg0 32000 ''k'' (dedup_run dedup_cfg0 dedup_init
        [Call 0 ''k'', Call 30000 ''k'', Settles 0]))) = [(''k'', 0), (''k'', 1), (''k'', 2)]"
  by code_simp

section \<open>Theorems about the task executor\<close>

subsection \<open>Starting tasks\<close>

lemma keys_update: "fst ` set (AList.update k v al) = insert k (fst ` set al)"
  by (simp add: AList.dom_update)

lemma executeTask_new:
  assumes "map_of (activeJobs s) (task_id task) = None" and "1 \<le> retryAttempts cfg"
  shows "executeTask cfg task s =
           (nextJob s,
            s\<lparr>nextJob := Suc (nextJob s),
              jobs := AList.update (nextJob s)
                        \<lparr>job_task = task_id task, attempt = 1, phase = Racing\<rparr> (jobs s),
              taskFnCalls := taskFnCalls s @ [task_id task],
              inFlight := inFlight s @ [(nextJob s, 1)],
              activeJobs := AList.update (task_id task) (nextJob s) (activeJobs s)\<rparr>)"
  using assms
  by (simp add: executeTask_def runTaskWithRetry_start_def runTaskWithTimeout_start_def Let_def)

lemma executeTask_joins:
  "map_of (activeJobs s) (task_id task) = Some p \<Longrightarrow> executeTask cfg task s = (p, s)"
  by (simp add: executeTask_def)

lemma execute_starts:
  assumes "1 \<le> retryAttempts cfg"
  shows "length (inFlight (snd (execute cfg tasks s))) =
           length (inFlight s) + length (started (fst ` set (activeJobs s)) (map task_id tasks))
       \<and> taskFnCalls (snd (execute cfg tasks s)) =
           taskFnCalls s @ started (fst ` set (activeJobs s)) (map task_id tasks)
       \<and> fst ` set (activeJobs (snd (execute cfg tasks s))) =
           fst ` set (activeJobs s) \<union> task_id ` set tasks"
proof (induction tasks arbitrary: s)
  case Nil
  show ?case by simp
next
  case (Cons task tasks)
  obtain p s1 where e1: "executeTask cfg task s = (p, s1)" by (cases "executeTask cfg task s")
  obtain ps s2 where e2: "execute cfg tasks s1 = (ps, s2)" by (cases "execute cfg tasks s1")
  show ?case
  proof (cases "map_of (activeJobs s) (task_id task)")
    case None
    then have notin: "task_id task \<notin> fst ` set (activeJobs s)"
      by (simp add: map_of_eq_None_iff)
    from executeTask_new [OF None assms] e1
    have s1: "inFlight s1 = inFlight s @ [(nextJob s, 1)]"
      "taskFnCalls s1 = taskFnCalls s @ [task_id task]"
      "activeJobs s1 = AList.update (task_id task) (nextJob s) (activeJobs s)"
      by auto
    from Cons.IH [of s1] e2 s1 notin e1 show ?thesis
      by (simp add: keys_update)
  next
    case (Some q)
    then have isin: "task_id task \<in> fst ` set (activeJobs s)"
      by (metis map_of_eq_None_iff option.distinct(1))
    from executeTask_joins [OF Some] e1 have "s1 = s" by simp
    with Cons.IH [of s1] e2 isin e1 show ?thesis
      by (auto simp: insert_absorb)
  qed
qed

lemma started_card:
  "finite active \<Longrightarrow> length (started active is) = card (set is - active)"
proof (induction "is" arbitrary: active)
  case Nil
  show ?case by simp
next
  case (Cons i "is")
  show ?case
  proof (cases "i \<in> active")
    case True
    then have "set (i # is) - active = set is - active" by auto
    with True Cons show ?thesis by simp
  next
    case False
    have "set (i # is) - active = insert i (set is - insert i active)" using False by auto
    moreover have "i \<notin> set is - insert i active" by simp
    ultimately have "card (set (i # is) - active) = Suc (card (set is - insert i active))"
      by (simp add: card_insert_disjoint)
    with False Cons show ?thesis by simp
  qed
qed

lemma executeTask_maxConcurrency:
  "executeTask (cfg\<lparr>maxConcurrency := m\<rparr>) task s = executeTask cfg task s"
  by (simp add: executeTask_def runTaskWithRetry_start_def split: option.splits)

lemma execute_maxConcurrency:
  "execute (cfg\<lparr>maxConcurrency := m\<rparr>) tasks s = execute cfg tasks s"
  by (induction tasks arbitrary: s) (simp_all add: executeTask_maxConcurrency)

lemma attempt_failed_maxConcurrency:
  "attempt_failed (cfg\<lparr>maxConcurrency := m\<rparr>) j job s = attempt_failed cfg j job s"
  by (simp add: attempt_failed_def)

lemma processor_step_maxConcurrency:
  "processor_step (cfg\<lparr>maxConcurrency := m\<rparr>) ev s = processor_step cfg ev s"
  by (cases ev)
    (simp_all add: executeTask_maxConcurrency taskFn_rejects_def timer_fires_def
      attempt_failed_maxConcurrency Let_def split: option.splits)

lemma processor_run_maxConcurrency:
  "processor_run (cfg\<lparr>maxConcurrency := m\<rparr>) s evs = processor_run cfg s evs"
  by (induction evs arbitrary: s) (simp_all add: processor_step_maxConcurrency)

text \<open>A timer that beats the task function fails the attempt and leaves the invocation
  running; after the delay the next attempt invokes the task function again, and two
  invocations of one task run at a time.\<close>

lemma retry_after_timeout_runs_twice:
  "inFlight (processor_run processor_cfg2 processor_init
       [Submit (task_named ''a''), TimerFires 0 1, DelayElapsed 0]) = [(0, 1), (0, 2)]
   \<and> taskFnCalls (processor_run processor_cfg2 processor_init
       [Submit (task_named ''a''), TimerFires 0 1, DelayElapsed 0]) = [''a'', ''a'']"
  by code_simp

text \<open>
  C1, as stated: three tasks with distinct ids given to \<open>execute\<close> on an idle processor
  whose \<open>maxConcurrency\<close> is 2. When \<open>execute\<close> has mapped over the list, and before
  anything has settled, three task functions are running.
\<close>

theorem execute_exceeds_maxConcurrency_counterexample:
  "maxConcurrency processor_cfg2 = 2
   \<and> inFlight (snd (execute processor_cfg2
        [task_named ''a'', task_named ''b'', task_named ''c''] processor_init)) =
       [(0, 1), (1, 1), (2, 1)]
   \<and> \<not> int (length (inFlight (snd (execute processor_cfg2
        [task_named ''a'', task_named ''b'', task_named ''c''] processor_init))))
        \<le> maxConcurrency processor_cfg2"
  by code_simp

text \<open>
  C1, amended: neither \<open>execute\<close> nor any later step of a job (an invocation settling, a
  timer firing, a retry, the \<open>finally\<close> block) reads \<open>maxConcurrency\<close>. With
  \<open>retryAttempts\<close> at least 1, \<open>execute\<close> invokes at once the task function of every
  task of the list whose id is not active already, once for each such id: right after
  the call, the number of task functions running has grown by the number of distinct
  ids of the list that were not active, whatever \<open>maxConcurrency\<close> is.
\<close>

theorem execute_ignores_maxConcurrency:
  assumes "1 \<le> retryAttempts cfg"
  shows "execute (cfg\<lparr>maxConcurrency := m\<rparr>) tasks s = execute cfg tasks s
       \<and> processor_run (cfg\<lparr>maxConcurrency := m\<rparr>) s evs = processor_run cfg s evs
       \<and> taskFnCalls (snd (execute cfg tasks s)) =
           taskFnCalls s @ started (fst ` set (activeJobs s)) (map task_id tasks)
       \<and> length (inFlight (snd (execute cfg tasks s))) =
           length (inFlight s) + card (task_id ` set tasks - fst ` set (activeJobs s))"
proof -
  have "length (started (fst ` set (activeJobs s)) (map task_id tasks)) =
      card (set (map task_id tasks) - fst ` set (activeJobs s))"
    by (rule started_card) simp
  with execute_starts [OF assms, of tasks s]
    execute_maxConcurrency [where cfg = cfg and m = m and tasks = tasks and s = s]
    processor_run_maxConcurrency [where cfg = cfg and m = m and evs = evs and s = s]
  show ?thesis by simp
qed

theorem execute_ignores_maxConcurrency_witness:
  "execute (processor_cfg2\<lparr>maxConcurrency := 1\<rparr>)
       [task_named ''a'', task_named ''b'', task_named ''a'', task_named ''c''] processor_init =
     execute processor_cfg2
       [task_named ''a'', task_named ''b'', task_named ''a'', task_named ''c''] processor_init
   \<and> length (inFlight (snd (execute processor_cfg2
        [task_named ''a'', task_named ''b'', task_named ''a'', task_named ''c''] processor_init))) = 3"
proof -
  have r: "1 \<le> retryAttempts processor_cfg2" by (simp add: processor_cfg2_def)
  have c: "card (task_id ` set [task_named ''a'', task_named ''b'', task_named ''a'', task_named ''c'']
      - fst ` set (activeJobs processor_init)) = 3"
    by code_simp
  from execute_ignores_maxConcurrency [where m = 1
      and tasks = "[task_named ''a'', task_named ''b'', task_named ''a'', task_named ''c'']"
      and s = processor_init, OF r] c
  show ?thesis by (simp add: processor_init_def)
qed

subsection \<open>Sharing a job by task id\<close>


















end
